theory Spec2Isabelle
  imports Main "HOL-Library.Word"
begin

unbundle bit_operations_syntax

section \<open>Machine types, macros and constants\<close>

text \<open>
  The Event Hub of \<^verbatim>\<open>frameworks/base/libs/ui/EventHub.cpp\<close>, embedded for the build the
  specification describes: \<^verbatim>\<open>HAVE_INOTIFY\<close> and \<^verbatim>\<open>EV_SW\<close> defined, \<^verbatim>\<open>HAVE_TSLIB\<close> not
  defined, 32-bit \<^verbatim>\<open>int\<close> and \<^verbatim>\<open>long\<close>.  \<^verbatim>\<open>int32_t\<close> and \<^verbatim>\<open>uint32_t\<close> are 32-bit
  words (the operators wrap; \<open>sint\<close> and \<open>unat\<close> read them), file descriptors and
  return codes are integers.  Logging, the wake lock and the property store are sinks that
  never feed back into the hub and are left out.
\<close>

type_synonym int32 = "32 word"
type_synonym uint32 = "32 word"
type_synonym uint8 = "8 word"

named_theorems hub_consts \<open>numeric constants of the hub and of the evdev ABI\<close>

text \<open>Lines 55-72 of EventHub.cpp.\<close>

definition test_bit :: "nat \<Rightarrow> uint8 list \<Rightarrow> bool" where
  "test_bit b array = (array ! (b div 8) AND push_bit (b mod 8) 1 \<noteq> 0)"

definition ID_MASK :: int32 where [hub_consts]: "ID_MASK = 0x0000ffff"
definition SEQ_MASK :: uint32 where [hub_consts]: "SEQ_MASK = 0x7fff0000"
definition SEQ_SHIFT :: nat where [hub_consts]: "SEQ_SHIFT = 16"

definition id_to_index :: "int32 \<Rightarrow> nat" where
  "id_to_index i = unat (i AND ID_MASK) + 1"

definition ABS_MT_TOUCH_MAJOR :: nat where [hub_consts]: "ABS_MT_TOUCH_MAJOR = 0x30"
definition ABS_MT_POSITION_X :: nat where [hub_consts]: "ABS_MT_POSITION_X = 0x35"
definition ABS_MT_POSITION_Y :: nat where [hub_consts]: "ABS_MT_POSITION_Y = 0x36"

text \<open>
  The evdev constants the source takes from \<^verbatim>\<open>linux/input.h\<close> and \<^verbatim>\<open>sys/poll.h\<close>; the
  headers are not part of the repository, the values are those of the kernel ABI
  (\<^verbatim>\<open>KEY_MAX\<close> and \<^verbatim>\<open>SW_MAX\<close> those of the kernel generation the source was written for).
\<close>

definition EV_KEY :: nat where [hub_consts]: "EV_KEY = 0x01"
definition EV_SW :: nat where [hub_consts]: "EV_SW = 0x05"
definition KEY_MAX :: nat where [hub_consts]: "KEY_MAX = 0x1ff"
definition REL_MAX :: nat where [hub_consts]: "REL_MAX = 0x0f"
definition ABS_MAX :: nat where [hub_consts]: "ABS_MAX = 0x3f"
definition SW_MAX :: nat where [hub_consts]: "SW_MAX = 0x0f"
definition BTN_MISC :: nat where [hub_consts]: "BTN_MISC = 0x100"
definition BTN_MOUSE :: nat where [hub_consts]: "BTN_MOUSE = 0x110"
definition BTN_LEFT :: nat where [hub_consts]: "BTN_LEFT = 0x110"
definition BTN_RIGHT :: nat where [hub_consts]: "BTN_RIGHT = 0x111"
definition BTN_TOUCH :: nat where [hub_consts]: "BTN_TOUCH = 0x14a"
definition REL_X :: nat where [hub_consts]: "REL_X = 0x00"
definition REL_Y :: nat where [hub_consts]: "REL_Y = 0x01"
definition ABS_X :: nat where [hub_consts]: "ABS_X = 0x00"
definition ABS_Y :: nat where [hub_consts]: "ABS_Y = 0x01"
definition SW_HEADPHONE_INSERT :: nat where [hub_consts]: "SW_HEADPHONE_INSERT = 0x02"
definition POLLIN :: "16 word" where [hub_consts]: "POLLIN = 0x0001"

text \<open>
  Modelled from the spec: \<^verbatim>\<open>ui/EventHub.h\<close> and \<^verbatim>\<open>ui/KeycodeLabels.h\<close> are not among the
  sources.  The device classes are the bitset of spec section 3 (one bit per class; the
  six classes of the platform header keep its values, MOUSE and HEADSET take the next
  free bits), the two synthetic event types are distinct from every kernel \<^verbatim>\<open>EV_*\<close>
  value (spec section 6), and the key codes probed by discovery are the framework's
  Q and D-pad codes.
\<close>

definition CLASS_KEYBOARD :: uint32 where [hub_consts]: "CLASS_KEYBOARD = 0x00000001"
definition CLASS_ALPHAKEY :: uint32 where [hub_consts]: "CLASS_ALPHAKEY = 0x00000002"
definition CLASS_TOUCHSCREEN :: uint32 where [hub_consts]: "CLASS_TOUCHSCREEN = 0x00000004"
definition CLASS_TRACKBALL :: uint32 where [hub_consts]: "CLASS_TRACKBALL = 0x00000008"
definition CLASS_TOUCHSCREEN_MT :: uint32 where [hub_consts]: "CLASS_TOUCHSCREEN_MT = 0x00000010"
definition CLASS_DPAD :: uint32 where [hub_consts]: "CLASS_DPAD = 0x00000020"
definition CLASS_MOUSE :: uint32 where [hub_consts]: "CLASS_MOUSE = 0x00000040"
definition CLASS_HEADSET :: uint32 where [hub_consts]: "CLASS_HEADSET = 0x00000080"

definition DEVICE_ADDED :: int32 where [hub_consts]: "DEVICE_ADDED = 0x10000000"
definition DEVICE_REMOVED :: int32 where [hub_consts]: "DEVICE_REMOVED = 0x20000000"

definition kKeyCodeQ :: int32 where [hub_consts]: "kKeyCodeQ = 45"
definition kKeyCodeDpadUp :: int32 where [hub_consts]: "kKeyCodeDpadUp = 19"
definition kKeyCodeDpadDown :: int32 where [hub_consts]: "kKeyCodeDpadDown = 20"
definition kKeyCodeDpadLeft :: int32 where [hub_consts]: "kKeyCodeDpadLeft = 21"
definition kKeyCodeDpadRight :: int32 where [hub_consts]: "kKeyCodeDpadRight = 22"
definition kKeyCodeDpadCenter :: int32 where [hub_consts]: "kKeyCodeDpadCenter = 23"

text \<open>
  Modelled from the spec: \<^verbatim>\<open>utils/Timers.h\<close> is not among the sources; \<^verbatim>\<open>s2ns\<close> and
  \<^verbatim>\<open>us2ns\<close> convert seconds and microseconds to the 64-bit nanosecond count
  \<^verbatim>\<open>nsecs_t\<close> (spec section 4.7: \<^verbatim>\<open>sec * 10^9 + usec * 10^3\<close>).
\<close>

type_synonym nsecs_t = "64 word"

definition s2ns :: "nsecs_t \<Rightarrow> nsecs_t" where
  "s2ns secs = secs * 1000000000"

definition us2ns :: "nsecs_t \<Rightarrow> nsecs_t" where
  "us2ns secs = secs * 1000"

section \<open>Key layout map\<close>

text \<open>
  Modelled from the spec: \<^verbatim>\<open>KeyLayoutMap.h\<close> and its implementation are not among the
  sources.  Spec section 4.2: the map takes a scancode to a key code and flags;
  \<^verbatim>\<open>load\<close> parses a file and leaves an empty but usable map on error, \<^verbatim>\<open>map\<close> answers
  \<^verbatim>\<open>(keycode, flags)\<close> or not-found, \<^verbatim>\<open>find_scancodes\<close> is the reverse lookup, possibly
  empty.  The map is the association list of its entries; a fresh \<^verbatim>\<open>KeyLayoutMap()\<close> has
  none, and what \<^verbatim>\<open>load\<close> reads from the file is an input of discovery.
\<close>

type_synonym KeyLayoutMap = "(int32 \<times> int32 \<times> uint32) list"

definition NO_ERROR :: int where [hub_consts]: "NO_ERROR = 0"
definition NAME_NOT_FOUND :: int where [hub_consts]: "NAME_NOT_FOUND = -2"

definition new_KeyLayoutMap :: KeyLayoutMap where
  "new_KeyLayoutMap = []"

definition layout_map :: "KeyLayoutMap \<Rightarrow> int32 \<Rightarrow> (int32 \<times> uint32) option" where
  "layout_map m scancode = map_of m scancode"

definition findScancodes :: "KeyLayoutMap \<Rightarrow> int32 \<Rightarrow> int32 list" where
  "findScancodes m keycode = map fst (filter (\<lambda>e. fst (snd e) = keycode) m)"

section \<open>Data model\<close>

text \<open>
  \<^verbatim>\<open>device_t\<close> (constructor at lines 90-93).  The field \<^verbatim>\<open>id\<close> is \<open>dev_id\<close> here (\<open>id\<close> is
  the identity function of HOL).  A null \<^verbatim>\<open>keyBitmask\<close> is \<open>None\<close>.  The source holds
  records by pointer; \<open>obj\<close> stands for the address of the record: the hub numbers the
  records in the order \<^verbatim>\<open>new device_t\<close> allocates them, so two records are the same
  object exactly when they are equal.  The intrusive \<^verbatim>\<open>next\<close> pointer threads the two
  pending lists; each of them is kept below as the list of records reached from its
  head through \<^verbatim>\<open>next\<close>, and \<^verbatim>\<open>close_device\<close> spells out what overwriting the one pointer
  does to both.
\<close>

record device_t =
  obj :: nat
  dev_id :: int32
  path :: string
  name :: string
  classes :: uint32
  keyBitmask :: "uint8 list option"
  layoutMap :: KeyLayoutMap

definition new_device_t :: "nat \<Rightarrow> int32 \<Rightarrow> string \<Rightarrow> string \<Rightarrow> device_t" where
  "new_device_t a i p n =
     \<lparr>obj = a, dev_id = i, path = p, name = n, classes = 0, keyBitmask = None,
      layoutMap = new_KeyLayoutMap\<rparr>"

record device_ent =
  device :: "device_t option"
  seq :: uint32

text \<open>
  The hub.  \<open>mDevicesById\<close> is the identity table (\<open>mNumDevicesById\<close> its length),
  \<open>mFDs\<close> the descriptors of the poll set and \<open>mDevices\<close> the parallel array of device
  pointers (\<open>mFDCount\<close> their length), \<open>mSwitches\<close> the fixed array
  \<^verbatim>\<open>int32_t[SW_MAX+1]\<close>, read and written by the source only at indices up to \<^verbatim>\<open>SW_MAX\<close>.
  The block \<^verbatim>\<open>mFDs\<close> points to can be longer than \<open>mFDCount\<close>: \<^verbatim>\<open>close_device\<close> moves the
  entries down without shrinking it, and \<^verbatim>\<open>open_device\<close> writes the descriptor before it
  counts the entry.  \<open>mFDs_rest\<close> holds the descriptors of the block from index
  \<open>mFDCount\<close> on (\<open>None\<close> for an entry \<^verbatim>\<open>realloc\<close> added and nothing has written); the
  accessors index the block with \<^verbatim>\<open>id_to_index\<close> and can land there.  The block of
  \<open>mDevices\<close> has the same shape, but the source reads it below \<open>mFDCount\<close> only.

  Three components are not members of the class.  \<open>os_open\<close> lists the descriptors the
  process holds open, so that \<^verbatim>\<open>open\<close> and \<^verbatim>\<open>close\<close> are visible; \<open>allocated\<close> counts the
  records \<^verbatim>\<open>new device_t\<close> has returned and \<open>freed\<close> lists those \<^verbatim>\<open>delete\<close> has destroyed,
  so that reading a record through a pointer left behind is visible.
\<close>

record EventHub =
  mError :: int
  mHaveFirstKeyboard :: bool
  mFirstKeyboardId :: int32
  mDevicesById :: "device_ent list"
  mOpeningDevices :: "device_t list"
  mClosingDevices :: "device_t list"
  mDevices :: "device_t option list"
  mFDs :: "int list"
  mOpened :: bool
  mSwitches :: "nat \<Rightarrow> int32"
  mExcludedDevices :: "string list"
  mFDs_rest :: "int option list"
  os_open :: "int list"
  allocated :: nat
  freed :: "nat list"

definition mNumDevicesById :: "EventHub \<Rightarrow> nat" where
  "mNumDevicesById s = length (mDevicesById s)"

definition mFDCount :: "EventHub \<Rightarrow> nat" where
  "mFDCount s = length (mFDs s)"

definition NO_INIT :: int where [hub_consts]: "NO_INIT = -19"
definition UNKNOWN_ERROR :: int where [hub_consts]: "UNKNOWN_ERROR = -2147483648"

text \<open>The constructor, lines 100-113.\<close>

definition new_EventHub :: EventHub where
  "new_EventHub =
     \<lparr>mError = NO_INIT, mHaveFirstKeyboard = False, mFirstKeyboardId = 0,
      mDevicesById = [], mOpeningDevices = [], mClosingDevices = [],
      mDevices = [], mFDs = [], mOpened = False, mSwitches = (\<lambda>_. 0),
      mExcludedDevices = [], mFDs_rest = [], os_open = [], allocated = 0, freed = []\<rparr>"

definition addExcludedDevice :: "string \<Rightarrow> EventHub \<Rightarrow> EventHub" where
  "addExcludedDevice deviceName s = s\<lparr>mExcludedDevices := mExcludedDevices s @ [deviceName]\<rparr>"

section \<open>Identity table\<close>

text \<open>\<^verbatim>\<open>getDevice\<close>, lines 293-304.\<close>

definition getDevice :: "EventHub \<Rightarrow> int32 \<Rightarrow> device_t option" where
  "getDevice s deviceId0 =
     (let deviceId = (if deviceId0 = 0 then mFirstKeyboardId s else deviceId0);
          i = deviceId AND ID_MASK
      in if int (mNumDevicesById s) \<le> sint i \<or> sint i < 0 then None
         else (case device (mDevicesById s ! nat (sint i)) of
                 None \<Rightarrow> None
               | Some dev \<Rightarrow> if dev_id dev = deviceId then Some dev else None))"

text \<open>The sequence step of \<^verbatim>\<open>open_device\<close>, lines 659-662.\<close>

definition next_seq :: "uint32 \<Rightarrow> uint32" where
  "next_seq q =
     (let q1 = (q + push_bit SEQ_SHIFT 1) AND SEQ_MASK
      in if q1 = 0 then push_bit SEQ_SHIFT 1 else q1)"

text \<open>The slot search of \<^verbatim>\<open>open_device\<close>, lines 639-645: the first index, from \<open>devid\<close>
  on, whose device pointer is null, or the length of the table.\<close>

fun free_slot :: "device_ent list \<Rightarrow> nat \<Rightarrow> nat" where
  "free_slot [] devid = devid"
| "free_slot (e # es) devid = (if device e = None then devid else free_slot es (Suc devid))"

section \<open>Faults\<close>

text \<open>
  Where the source would dereference a null pointer, index an array outside its block,
  read an entry of a block that nothing has written, or read a record after
  \<^verbatim>\<open>delete\<close>, the model stops with a fault instead of a result.
\<close>

datatype fault = NullPointer | OutOfBounds | Uninitialized | UseAfterFree

section \<open>Device discovery\<close>

text \<open>
  What the operating system answers while \<^verbatim>\<open>open_device\<close> probes one candidate: the
  result of \<^verbatim>\<open>open\<close>, whether \<^verbatim>\<open>EVIOCGVERSION\<close> and \<^verbatim>\<open>EVIOCGID\<close> succeed, the name
  (\<open>None\<close> when \<^verbatim>\<open>EVIOCGNAME\<close> returns less than 1), the bytes each \<^verbatim>\<open>EVIOCGBIT\<close>
  writes (\<open>None\<close> when the ioctl returns a negative value), the key layout read from
  \<^verbatim>\<open><name>.kl\<close> (\<open>None\<close> when \<^verbatim>\<open>access\<close> finds it unreadable) and from \<^verbatim>\<open>qwerty.kl\<close>, and
  which allocations fail.
\<close>

record fixture =
  fx_fd :: int
  fx_version :: bool
  fx_id :: bool
  fx_name :: "string option"
  fx_key :: "uint8 list option"
  fx_rel :: "uint8 list option"
  fx_abs :: "uint8 list option"
  fx_sw :: "uint8 list option"
  fx_kl_own :: "KeyLayoutMap option"
  fx_kl_default :: KeyLayoutMap
  fx_oom_devids :: bool
  fx_oom_fds :: bool
  fx_oom_device :: bool
  fx_oom_keybitmask :: bool

text \<open>A bitmask buffer of \<open>n\<close> bytes: zeroed by \<^verbatim>\<open>memset\<close>, then filled by the ioctl with
  at most \<open>n\<close> bytes; a driver that writes fewer leaves the tail zero.\<close>

definition ioctl_bits :: "nat \<Rightarrow> uint8 list option \<Rightarrow> uint8 list" where
  "ioctl_bits n r = (case r of None \<Rightarrow> replicate n 0 | Some bs \<Rightarrow> take n (bs @ replicate n 0))"

text \<open>\<^verbatim>\<open>EVIOCGNAME(sizeof(name) - 1)\<close> into \<^verbatim>\<open>char name[80]\<close>, lines 610-616.\<close>

definition probe_name :: "fixture \<Rightarrow> string" where
  "probe_name fx = (case fx_name fx of None \<Rightarrow> [] | Some n \<Rightarrow> take 79 n)"

definition os_close :: "int \<Rightarrow> EventHub \<Rightarrow> EventHub" where
  "os_close fd s = s\<lparr>os_open := removeAll fd (os_open s)\<rparr>"

text \<open>\<^verbatim>\<open>delete device\<close>.\<close>

definition delete_device :: "device_t \<Rightarrow> EventHub \<Rightarrow> EventHub" where
  "delete_device dev s = s\<lparr>freed := obj dev # freed s\<rparr>"

text \<open>The loop of lines 710-715: some byte among the first \<^verbatim>\<open>(BTN_MISC+7)/8\<close> is not zero.\<close>

definition keys_below_misc :: "uint8 list \<Rightarrow> bool" where
  "keys_below_misc key_bitmask =
     list_ex (\<lambda>i. key_bitmask ! i \<noteq> 0) [0 ..< (BTN_MISC + 7) div 8]"

text \<open>Lines 705-715: the keyboard test.\<close>

definition classify_keyboard :: "fixture \<Rightarrow> uint8 list \<Rightarrow> device_t \<Rightarrow> device_t" where
  "classify_keyboard fx key_bitmask dev =
     (if fx_key fx \<noteq> None \<and> keys_below_misc key_bitmask
      then dev\<lparr>classes := classes dev OR CLASS_KEYBOARD\<rparr> else dev)"

text \<open>Lines 716-725 when the allocation succeeds: a keyboard caches the bitmask.\<close>

definition cache_key_bitmask :: "fixture \<Rightarrow> uint8 list \<Rightarrow> device_t \<Rightarrow> device_t" where
  "cache_key_bitmask fx key_bitmask dev =
     (if fx_key fx \<noteq> None \<and> classes dev AND CLASS_KEYBOARD \<noteq> 0
      then dev\<lparr>keyBitmask := Some key_bitmask\<rparr> else dev)"

text \<open>Lines 728-742.\<close>

definition classify_pointer :: "fixture \<Rightarrow> uint8 list \<Rightarrow> device_t \<Rightarrow> device_t" where
  "classify_pointer fx key_bitmask dev =
     (if test_bit BTN_MOUSE key_bitmask then
        (let rel_bitmask = ioctl_bits ((REL_MAX + 7) div 8) (fx_rel fx)
         in if fx_rel fx \<noteq> None then
              (if test_bit REL_X rel_bitmask \<and> test_bit REL_Y rel_bitmask then
                 (if test_bit BTN_LEFT key_bitmask \<and> test_bit BTN_RIGHT key_bitmask
                  then dev\<lparr>classes := classes dev OR CLASS_MOUSE\<rparr>
                  else dev\<lparr>classes := classes dev OR CLASS_TRACKBALL\<rparr>)
               else dev)
            else dev)
      else dev)"

text \<open>Lines 744-769.\<close>

definition classify_touch :: "fixture \<Rightarrow> uint8 list \<Rightarrow> device_t \<Rightarrow> device_t" where
  "classify_touch fx key_bitmask dev =
     (let abs_bitmask = ioctl_bits ((ABS_MAX + 7) div 8) (fx_abs fx)
      in if test_bit ABS_MT_TOUCH_MAJOR abs_bitmask
            \<and> test_bit ABS_MT_POSITION_X abs_bitmask
            \<and> test_bit ABS_MT_POSITION_Y abs_bitmask
         then dev\<lparr>classes := classes dev OR (CLASS_TOUCHSCREEN OR CLASS_TOUCHSCREEN_MT)\<rparr>
         else if test_bit BTN_TOUCH key_bitmask
            \<and> test_bit ABS_X abs_bitmask \<and> test_bit ABS_Y abs_bitmask
         then dev\<lparr>classes := classes dev OR CLASS_TOUCHSCREEN\<rparr>
         else dev)"

text \<open>Lines 773-785: the switches of this device claim the free cells below \<^verbatim>\<open>SW_MAX\<close>.\<close>

definition claim_switch :: "uint8 list \<Rightarrow> int32 \<Rightarrow> (nat \<Rightarrow> int32) \<Rightarrow> nat \<Rightarrow> (nat \<Rightarrow> int32)" where
  "claim_switch sw_bitmask devid sw i =
     (if test_bit i sw_bitmask then (if sw i = 0 then sw(i := devid) else sw) else sw)"

definition claim_switches :: "fixture \<Rightarrow> int32 \<Rightarrow> (nat \<Rightarrow> int32) \<Rightarrow> (nat \<Rightarrow> int32)" where
  "claim_switches fx devid sw =
     (let sw_bitmask = ioctl_bits ((SW_MAX + 7) div 8) (fx_sw fx)
      in if fx_sw fx \<noteq> None then foldl (claim_switch sw_bitmask devid) sw [0 ..< SW_MAX]
         else sw)"

text \<open>Lines 787-788.\<close>

definition classify_headset :: "(nat \<Rightarrow> int32) \<Rightarrow> device_t \<Rightarrow> device_t" where
  "classify_headset sw dev =
     (if sw SW_HEADPHONE_INSERT \<noteq> 0 then dev\<lparr>classes := classes dev OR CLASS_HEADSET\<rparr>
      else dev)"

text \<open>\<^verbatim>\<open>hasKeycode\<close>, lines 873-890.  The layout map pointer is never null: the constructor
  allocates it.\<close>

definition hasKeycode :: "device_t \<Rightarrow> int32 \<Rightarrow> bool" where
  "hasKeycode dev keycode =
     (case keyBitmask dev of
        None \<Rightarrow> False
      | Some bm \<Rightarrow>
          list_ex (\<lambda>sc. 0 \<le> sint sc \<and> sint sc \<le> int KEY_MAX \<and> test_bit (nat (sint sc)) bm)
            (take (KEY_MAX + 1) (findScancodes (layoutMap dev) keycode)))"

text \<open>\<^verbatim>\<open>strstr(haystack, needle) != NULL\<close>.\<close>

fun starts_with :: "string \<Rightarrow> string \<Rightarrow> bool" where
  "starts_with hs [] = True"
| "starts_with [] (c # cs) = False"
| "starts_with (h # hs) (c # cs) = (h = c \<and> starts_with hs cs)"

fun strstr :: "string \<Rightarrow> string \<Rightarrow> bool" where
  "strstr [] needle = (needle = [])"
| "strstr (h # hs) needle = (starts_with (h # hs) needle \<or> strstr hs needle)"

text \<open>Lines 791-848 for a keyboard: the layout is loaded, the first keyboard is
  designated, and the alphabetic and D-pad classes are probed.\<close>

definition designate_keyboard :: "bool \<Rightarrow> string \<Rightarrow> int32 \<Rightarrow> EventHub \<Rightarrow> EventHub" where
  "designate_keyboard defaultKeymap nm devid s =
     (if \<not> mHaveFirstKeyboard s \<and> \<not> defaultKeymap \<and> strstr nm ''-keypad''
      then s\<lparr>mHaveFirstKeyboard := True, mFirstKeyboardId := devid\<rparr>
      else if mFirstKeyboardId s = 0 then s\<lparr>mFirstKeyboardId := devid\<rparr> else s)"

definition load_layout :: "fixture \<Rightarrow> string \<Rightarrow> device_t \<Rightarrow> device_t" where
  "load_layout fx nm dev =
     dev\<lparr>name := nm,
         layoutMap := (case fx_kl_own fx of None \<Rightarrow> fx_kl_default fx | Some m \<Rightarrow> m)\<rparr>"

definition classify_keys :: "device_t \<Rightarrow> device_t" where
  "classify_keys dev =
     (let dev = (if hasKeycode dev kKeyCodeQ
                 then dev\<lparr>classes := classes dev OR CLASS_ALPHAKEY\<rparr> else dev)
      in if hasKeycode dev kKeyCodeDpadUp \<and> hasKeycode dev kKeyCodeDpadDown
            \<and> hasKeycode dev kKeyCodeDpadLeft \<and> hasKeycode dev kKeyCodeDpadRight
            \<and> hasKeycode dev kKeyCodeDpadCenter
         then dev\<lparr>classes := classes dev OR CLASS_DPAD\<rparr> else dev)"

text \<open>Lines 864-870: the record enters the identity table, the opening list and the
  poll set; \<^verbatim>\<open>mFDCount++\<close> takes the entry written at line 693 into the poll set.\<close>

definition register_device :: "nat \<Rightarrow> int \<Rightarrow> device_t \<Rightarrow> EventHub \<Rightarrow> EventHub" where
  "register_device devid fd dev s =
     s\<lparr>mDevicesById := (mDevicesById s)[devid := (mDevicesById s ! devid)\<lparr>device := Some dev\<rparr>],
       mOpeningDevices := dev # mOpeningDevices s,
       mDevices := mDevices s @ [Some dev],
       mFDs := mFDs s @ [fd],
       mFDs_rest := drop 1 (mFDs_rest s)\<rparr>"

text \<open>Lines 728-848, after the keyboard test: the remaining classes are probed, the
  switches claimed and a keyboard set up; the record and the hub as they stand at
  line 850.\<close>

definition classify_device ::
  "fixture \<Rightarrow> string \<Rightarrow> uint8 list \<Rightarrow> device_t \<Rightarrow> EventHub \<Rightarrow> device_t \<times> EventHub" where
  "classify_device fx nm key_bitmask dev s =
     (let dev = classify_pointer fx key_bitmask dev;
          dev = classify_touch fx key_bitmask dev;
          s = s\<lparr>mSwitches := claim_switches fx (dev_id dev) (mSwitches s)\<rparr>;
          dev = classify_headset (mSwitches s) dev;
          kbd = (classes dev AND CLASS_KEYBOARD \<noteq> 0);
          s = (if kbd then designate_keyboard (fx_kl_own fx = None) nm (dev_id dev) s else s);
          dev = (if kbd then classify_keys (load_layout fx nm dev) else dev)
      in (dev, s))"

text \<open>Lines 696-871, from the classification on: \<open>dev\<close> is the record just constructed,
  \<open>devid\<close> its slot.  The two returns that give the record up delete it.\<close>

definition probe_device :: "fixture \<Rightarrow> nat \<Rightarrow> string \<Rightarrow> device_t \<Rightarrow> EventHub \<Rightarrow> int \<times> EventHub" where
  "probe_device fx devid nm dev s =
     (let key_bitmask = ioctl_bits ((KEY_MAX + 7) div 8) (fx_key fx);
          dev = classify_keyboard fx key_bitmask dev
      in if fx_key fx \<noteq> None \<and> classes dev AND CLASS_KEYBOARD \<noteq> 0 \<and> fx_oom_keybitmask fx
         then (-1, delete_device dev s)
         else
           (let dev = cache_key_bitmask fx key_bitmask dev;
                (dev, s) = classify_device fx nm key_bitmask dev s
            in if classes dev = 0 then (-1, delete_device dev (os_close (fx_fd fx) s))
               else (0, register_device devid (fx_fd fx) dev s)))"

text \<open>Lines 646-694: the table grows by one entry when no slot is free, the sequence of
  the slot advances, the poll arrays are reallocated to \<open>mFDCount + 1\<close> entries (the
  block keeps the entry it had at index \<open>mFDCount\<close>, or gains one nothing has written),
  the record is constructed and the descriptor is written at index \<open>mFDCount\<close>.\<close>

definition grow_table :: "nat \<Rightarrow> EventHub \<Rightarrow> EventHub" where
  "grow_table devid s =
     (if mNumDevicesById s \<le> devid
      then s\<lparr>mDevicesById := mDevicesById s @ [\<lparr>device = None, seq = 0\<rparr>]\<rparr> else s)"

definition advance_seq :: "nat \<Rightarrow> EventHub \<Rightarrow> EventHub" where
  "advance_seq devid s =
     s\<lparr>mDevicesById :=
         (mDevicesById s)[devid := (mDevicesById s ! devid)\<lparr>seq := next_seq (seq (mDevicesById s ! devid))\<rparr>]\<rparr>"

definition realloc_fds :: "EventHub \<Rightarrow> EventHub" where
  "realloc_fds s = s\<lparr>mFDs_rest := take 1 (mFDs_rest s @ [None])\<rparr>"

definition construct_device :: "int \<Rightarrow> EventHub \<Rightarrow> EventHub" where
  "construct_device fd s = s\<lparr>allocated := Suc (allocated s), mFDs_rest := [Some fd]\<rparr>"

definition open_device :: "fixture \<Rightarrow> string \<Rightarrow> EventHub \<Rightarrow> int \<times> EventHub" where
  "open_device fx deviceName s =
     (if fx_fd fx < 0 then (-1, s)
      else
        (let s = s\<lparr>os_open := fx_fd fx # os_open s\<rparr>
         in if \<not> fx_version fx then (-1, s)
            else if \<not> fx_id fx then (-1, s)
            else
              (let nm = probe_name fx
               in if nm \<in> set (mExcludedDevices s) then (-1, os_close (fx_fd fx) s)
                  else
                    (let devid = free_slot (mDevicesById s) 0
                     in if mNumDevicesById s \<le> devid \<and> fx_oom_devids fx then (-1, s)
                        else
                          (let s = advance_seq devid (grow_table devid s)
                           in if fx_oom_fds fx then (-1, s)
                              else
                                (let s = realloc_fds s
                                 in if fx_oom_device fx then (-1, s)
                                    else probe_device fx devid nm
                                           (new_device_t (allocated s)
                                              (word_of_nat devid OR seq (mDevicesById s ! devid))
                                              deviceName nm)
                                           (construct_device (fx_fd fx) s)))))))"

section \<open>Closing a device\<close>

text \<open>The search loop of \<^verbatim>\<open>close_device\<close>, lines 897-898, over the indices still to
  visit.\<close>

fun find_device ::
  "device_t option list \<Rightarrow> string \<Rightarrow> nat list \<Rightarrow> fault + (nat \<times> device_t) option" where
  "find_device devs deviceName [] = Inr None"
| "find_device devs deviceName (i # is) =
     (if length devs \<le> i then Inl OutOfBounds
      else (case devs ! i of
              None \<Rightarrow> Inl NullPointer
            | Some d \<Rightarrow> if path d = deviceName then Inr (Some (i, d))
                        else find_device devs deviceName is))"

text \<open>Lines 917-923: the cells below \<^verbatim>\<open>EV_SW\<close> that hold the id are cleared.\<close>

definition release_switch :: "int32 \<Rightarrow> (nat \<Rightarrow> int32) \<Rightarrow> nat \<Rightarrow> (nat \<Rightarrow> int32)" where
  "release_switch devid sw j = (if sw j = devid then sw(j := 0) else sw)"

definition release_switches :: "int32 \<Rightarrow> (nat \<Rightarrow> int32) \<Rightarrow> (nat \<Rightarrow> int32)" where
  "release_switches devid sw = foldl (release_switch devid) sw [0 ..< EV_SW]"

text \<open>
  Lines 925-926 write the \<^verbatim>\<open>next\<close> pointer of the record, the same pointer that threads
  it on the opening list while it waits to be reported.  A record closed while it is
  still on the opening list keeps the records opened after it in front of it, and what
  follows it on that list is from then on the closing list as it stood; the records that
  followed it before are no longer reached.
\<close>

definition relink_opening :: "device_t \<Rightarrow> device_t list \<Rightarrow> device_t list \<Rightarrow> device_t list" where
  "relink_opening dev closing opening =
     (if dev \<in> set opening then takeWhile (\<lambda>d. d \<noteq> dev) opening @ dev # closing
      else opening)"

text \<open>Lines 900-938 for the record \<open>dev\<close> found at index \<open>i\<close> of the poll set.  The two
  \<^verbatim>\<open>memmove\<close> calls leave the last entry of each block where it was, now at index
  \<open>mFDCount\<close>.\<close>

definition close_at :: "nat \<Rightarrow> device_t \<Rightarrow> EventHub \<Rightarrow> fault + EventHub" where
  "close_at i dev s =
     (let index = unat (dev_id dev AND ID_MASK)
      in if mNumDevicesById s \<le> index then Inl OutOfBounds
         else
           (let s = s\<lparr>mDevicesById :=
                       (mDevicesById s)[index := (mDevicesById s ! index)\<lparr>device := None\<rparr>]\<rparr>;
                s = os_close (mFDs s ! i) s;
                s = s\<lparr>mDevices := take i (mDevices s) @ drop (Suc i) (mDevices s),
                       mFDs := take i (mFDs s) @ drop (Suc i) (mFDs s),
                       mFDs_rest := Some (last (mFDs s)) # mFDs_rest s\<rparr>;
                s = s\<lparr>mSwitches := release_switches (dev_id dev) (mSwitches s)\<rparr>;
                s = s\<lparr>mOpeningDevices := relink_opening dev (mClosingDevices s) (mOpeningDevices s),
                       mClosingDevices := dev # mClosingDevices s\<rparr>
            in Inr (if dev_id dev = mFirstKeyboardId s then s\<lparr>mFirstKeyboardId := 0\<rparr> else s)))"

text \<open>\<^verbatim>\<open>close_device\<close>, lines 892-943.\<close>

definition close_device :: "string \<Rightarrow> EventHub \<Rightarrow> fault + (int \<times> EventHub)" where
  "close_device deviceName s =
     (case find_device (mDevices s) deviceName [1 ..< mFDCount s] of
        Inl f \<Rightarrow> Inl f
      | Inr None \<Rightarrow> Inr (-1, s)
      | Inr (Some (i, dev)) \<Rightarrow>
          (case close_at i dev s of
             Inl f \<Rightarrow> Inl f
           | Inr s' \<Rightarrow> Inr (0, s')))"

section \<open>Pull-mode queries\<close>

text \<open>What the kernel answers to the state ioctls on a descriptor: \<open>None\<close> when the ioctl
  fails.\<close>

record input_absinfo =
  minimum :: int32
  maximum :: int32
  fuzz :: int32
  flat :: int32

record kernel =
  EVIOCGABS :: "int \<Rightarrow> int32 \<Rightarrow> input_absinfo option"
  EVIOCGSW :: "int \<Rightarrow> uint8 list option"
  EVIOCGKEY :: "int \<Rightarrow> uint8 list option"

text \<open>\<^verbatim>\<open>mFDs[id_to_index(device->id)].fd\<close>: the index is not compared with \<open>mFDCount\<close>, so
  the read can take an entry of the block beyond the poll set.\<close>

definition device_fd :: "EventHub \<Rightarrow> device_t \<Rightarrow> fault + int" where
  "device_fd s dev =
     (let index = id_to_index (dev_id dev)
      in if index < mFDCount s then Inr (mFDs s ! index)
         else if index - mFDCount s < length (mFDs_rest s)
         then (case mFDs_rest s ! (index - mFDCount s) of
                 Some fd \<Rightarrow> Inr fd
               | None \<Rightarrow> Inl Uninitialized)
         else Inl OutOfBounds)"

text \<open>Lines 129-143.\<close>

definition getDeviceName :: "EventHub \<Rightarrow> int32 \<Rightarrow> string" where
  "getDeviceName s deviceId = (case getDevice s deviceId of None \<Rightarrow> [] | Some dev \<Rightarrow> name dev)"

definition getDeviceClasses :: "EventHub \<Rightarrow> int32 \<Rightarrow> uint32" where
  "getDeviceClasses s deviceId = (case getDevice s deviceId of None \<Rightarrow> 0 | Some dev \<Rightarrow> classes dev)"

text \<open>Lines 145-164: the return code and, on success, the four values written.\<close>

definition getAbsoluteInfo ::
  "kernel \<Rightarrow> EventHub \<Rightarrow> int32 \<Rightarrow> int32 \<Rightarrow> fault + (int \<times> (int32 \<times> int32 \<times> int32 \<times> int32) option)" where
  "getAbsoluteInfo k s deviceId axis =
     (case getDevice s deviceId of
        None \<Rightarrow> Inr (-1, None)
      | Some dev \<Rightarrow>
          (case device_fd s dev of
             Inl f \<Rightarrow> Inl f
           | Inr fd \<Rightarrow>
               (case EVIOCGABS k fd axis of
                  None \<Rightarrow> Inr (-1, None)
                | Some info \<Rightarrow> Inr (0, Some (minimum info, maximum info, flat info, fuzz info)))))"

text \<open>Lines 179-197.\<close>

definition getSwitchState_dev :: "kernel \<Rightarrow> EventHub \<Rightarrow> int32 \<Rightarrow> int32 \<Rightarrow> fault + int" where
  "getSwitchState_dev k s deviceId sw =
     (case getDevice s deviceId of
        None \<Rightarrow> Inr (-1)
      | Some dev \<Rightarrow>
          if 0 \<le> sint sw \<and> sint sw \<le> int SW_MAX then
            (case device_fd s dev of
               Inl f \<Rightarrow> Inl f
             | Inr fd \<Rightarrow>
                 (case EVIOCGSW k fd of
                    None \<Rightarrow> Inr (-1)
                  | Some bs \<Rightarrow>
                      Inr (if test_bit (nat (sint sw)) (ioctl_bits ((SW_MAX + 7) div 8) (Some bs))
                           then 1 else 0)))
          else Inr (-1))"

text \<open>Lines 166-177.\<close>

definition getSwitchState :: "kernel \<Rightarrow> EventHub \<Rightarrow> int32 \<Rightarrow> fault + int" where
  "getSwitchState k s sw =
     (if 0 \<le> sint sw \<and> sint sw \<le> int SW_MAX \<and> mSwitches s (nat (sint sw)) \<noteq> 0
      then getSwitchState_dev k s (mSwitches s (nat (sint sw))) sw
      else Inr (-1))"

text \<open>Lines 204-220.\<close>

definition getScancodeState_dev :: "kernel \<Rightarrow> EventHub \<Rightarrow> int32 \<Rightarrow> int32 \<Rightarrow> fault + int" where
  "getScancodeState_dev k s deviceId code =
     (case getDevice s deviceId of
        None \<Rightarrow> Inr (-1)
      | Some dev \<Rightarrow>
          if 0 \<le> sint code \<and> sint code \<le> int KEY_MAX then
            (case device_fd s dev of
               Inl f \<Rightarrow> Inl f
             | Inr fd \<Rightarrow>
                 (case EVIOCGKEY k fd of
                    None \<Rightarrow> Inr (-1)
                  | Some bs \<Rightarrow>
                      Inr (if test_bit (nat (sint code)) (ioctl_bits ((KEY_MAX + 7) div 8) (Some bs))
                           then 1 else 0)))
          else Inr (-1))"

text \<open>Lines 199-202.\<close>

definition getScancodeState :: "kernel \<Rightarrow> EventHub \<Rightarrow> int32 \<Rightarrow> fault + int" where
  "getScancodeState k s code = getScancodeState_dev k s (mFirstKeyboardId s) code"

text \<open>Lines 227-256.\<close>

definition getKeycodeState_dev :: "kernel \<Rightarrow> EventHub \<Rightarrow> int32 \<Rightarrow> int32 \<Rightarrow> fault + int" where
  "getKeycodeState_dev k s deviceId code =
     (case getDevice s deviceId of
        None \<Rightarrow> Inr (-1)
      | Some dev \<Rightarrow>
          (let scanCodes = findScancodes (layoutMap dev) code
           in case device_fd s dev of
                Inl f \<Rightarrow> Inl f
              | Inr fd \<Rightarrow>
                  (case EVIOCGKEY k fd of
                     None \<Rightarrow> Inr 0
                   | Some bs \<Rightarrow>
                       Inr (if list_ex
                                 (\<lambda>sc. 0 \<le> sint sc \<and> sint sc \<le> int KEY_MAX
                                    \<and> test_bit (nat (sint sc)) (ioctl_bits ((KEY_MAX + 7) div 8) (Some bs)))
                                 (take (KEY_MAX + 1) scanCodes)
                            then 1 else 0))))"

text \<open>Lines 222-225.\<close>

definition getKeycodeState :: "kernel \<Rightarrow> EventHub \<Rightarrow> int32 \<Rightarrow> fault + int" where
  "getKeycodeState k s code = getKeycodeState_dev k s (mFirstKeyboardId s) code"

text \<open>Lines 258-285: the status and the two values written.\<close>

definition scancodeToKeycode :: "EventHub \<Rightarrow> int32 \<Rightarrow> int32 \<Rightarrow> int \<times> int32 \<times> uint32" where
  "scancodeToKeycode s deviceId scancode =
     (let own = (case getDevice s deviceId of
                   None \<Rightarrow> None
                 | Some dev \<Rightarrow> layout_map (layoutMap dev) scancode)
      in case own of
           Some (keycode, flags) \<Rightarrow> (NO_ERROR, keycode, flags)
         | None \<Rightarrow>
             (let first = (if mHaveFirstKeyboard s
                           then (case getDevice s (mFirstKeyboardId s) of
                                   None \<Rightarrow> None
                                 | Some dev \<Rightarrow> layout_map (layoutMap dev) scancode)
                           else None)
              in case first of
                   Some (keycode, flags) \<Rightarrow> (NO_ERROR, keycode, flags)
                 | None \<Rightarrow> (NAME_NOT_FOUND, 0, 0)))"

text \<open>
  \<^verbatim>\<open>hasKeys\<close>, lines 552-576, calls \<^verbatim>\<open>findScancodes(keyCodes[codeIndex], &scanCodes)\<close> on
  the layout map of every device with one vector per key code (line 557), and tests the
  scancodes of the vector only when the call reports no error (line 561).  What the call
  leaves in a vector that already holds scancodes, and when it reports an error, is
  decided by \<^verbatim>\<open>KeyLayoutMap\<close>, which is not among the sources, and spec section 4.2 says
  only that the answer is the reverse lookup.  So the helper is a parameter here: from
  the map, the key code and the vector as it stands it gives the status and the vector
  as the call leaves it.
\<close>

type_synonym finder = "KeyLayoutMap \<Rightarrow> int32 \<Rightarrow> int32 list \<Rightarrow> int \<times> int32 list"

text \<open>The inner loop, lines 564-569: the source checks neither that the bitmask exists
  nor that the scancode lies inside it (a negative scancode indexes before the array or
  shifts by a negative amount).\<close>

fun test_scancodes :: "uint8 list option \<Rightarrow> int32 list \<Rightarrow> fault + bool" where
  "test_scancodes bm [] = Inr False"
| "test_scancodes bm (sc # scs) =
     (case bm of
        None \<Rightarrow> Inl NullPointer
      | Some b \<Rightarrow>
          if sint sc < 0 \<or> int (8 * length b) \<le> sint sc then Inl OutOfBounds
          else if test_bit (nat (sint sc)) b then Inr True
          else test_scancodes bm scs)"

text \<open>The loop over the poll set, lines 558-572, over the indices still to visit;
  \<open>scanCodes\<close> is the vector as the devices before left it.\<close>

fun hasKeys_devices ::
  "finder \<Rightarrow> device_t option list \<Rightarrow> int32 \<Rightarrow> int32 list \<Rightarrow> nat list \<Rightarrow> fault + uint8" where
  "hasKeys_devices lookup devs keycode scanCodes [] = Inr 0"
| "hasKeys_devices lookup devs keycode scanCodes (n # ns) =
     (if length devs \<le> n then Inl OutOfBounds
      else (case devs ! n of
              None \<Rightarrow> hasKeys_devices lookup devs keycode scanCodes ns
            | Some d \<Rightarrow>
                (case lookup (layoutMap d) keycode scanCodes of
                   (err, scanCodes') \<Rightarrow>
                     if err = NO_ERROR then
                       (case test_scancodes (keyBitmask d) scanCodes' of
                          Inl f \<Rightarrow> Inl f
                        | Inr True \<Rightarrow> Inr 1
                        | Inr False \<Rightarrow> hasKeys_devices lookup devs keycode scanCodes' ns)
                     else hasKeys_devices lookup devs keycode scanCodes' ns)))"

fun hasKeys :: "finder \<Rightarrow> EventHub \<Rightarrow> int32 list \<Rightarrow> fault + uint8 list" where
  "hasKeys lookup s [] = Inr []"
| "hasKeys lookup s (keyCode # keyCodes) =
     (case hasKeys_devices lookup (mDevices s) keyCode [] [0 ..< mFDCount s] of
        Inl f \<Rightarrow> Inl f
      | Inr flag \<Rightarrow>
          (case hasKeys lookup s keyCodes of
             Inl f \<Rightarrow> Inl f
           | Inr flags \<Rightarrow> Inr (flag # flags)))"

text \<open>
  Modelled from the spec: three helpers \<^verbatim>\<open>findScancodes\<close> could be.  Spec section 4.2
  gives \<^verbatim>\<open>find_scancodes(keycode)\<close> as the sequence of the reverse lookup: the first
  helper leaves exactly that sequence in the vector.  The second adds the reverse lookup
  to what the vector holds and reports an error for a map that has no entries; the third
  adds it and never reports an error.
\<close>

definition find_assign :: finder where
  "find_assign m keycode scanCodes = (NO_ERROR, findScancodes m keycode)"

definition find_append_loaded :: finder where
  "find_append_loaded m keycode scanCodes =
     (if m = new_KeyLayoutMap then (NO_INIT, scanCodes)
      else (NO_ERROR, scanCodes @ findScancodes m keycode))"

definition find_append :: finder where
  "find_append m keycode scanCodes = (NO_ERROR, scanCodes @ findScancodes m keycode)"

text \<open>What the first two have in common: when the call succeeds on a map without
  entries, the vector is empty afterwards.\<close>

definition empty_map_finds_nothing :: "finder \<Rightarrow> bool" where
  "empty_map_finds_nothing lookup \<longleftrightarrow>
     (\<forall>keycode scanCodes.
        fst (lookup new_KeyLayoutMap keycode scanCodes) = NO_ERROR \<longrightarrow>
        snd (lookup new_KeyLayoutMap keycode scanCodes) = [])"

section \<open>Event pump\<close>

text \<open>\<^verbatim>\<open>struct input_event\<close> with the 32-bit \<^verbatim>\<open>struct timeval\<close> of the target, and the
  seven values \<^verbatim>\<open>getEvent\<close> writes.\<close>

record input_event =
  tv_sec :: int32
  tv_usec :: int32
  ev_type :: "16 word"
  ev_code :: "16 word"
  ev_value :: int32

record RawEvent =
  outDeviceId :: int32
  outType :: int32
  outScancode :: int32
  outKeycode :: int32
  outFlags :: uint32
  outValue :: int32
  outWhen :: nsecs_t

text \<open>Lines 310-316.\<close>

definition zero_event :: RawEvent where
  "zero_event =
     \<lparr>outDeviceId = 0, outType = 0, outScancode = 0, outKeycode = 0, outFlags = 0,
      outValue = 0, outWhen = 0\<rparr>"

text \<open>\<^verbatim>\<open>*outDeviceId = device->id; if (*outDeviceId == mFirstKeyboardId) *outDeviceId = 0;\<close>\<close>

definition report_id :: "EventHub \<Rightarrow> device_t \<Rightarrow> int32" where
  "report_id s dev = (if dev_id dev = mFirstKeyboardId s then 0 else dev_id dev)"

text \<open>Lines 422-439: the event read from the device at a poll index is translated.\<close>

definition deliver :: "EventHub \<Rightarrow> device_t \<Rightarrow> input_event \<Rightarrow> RawEvent" where
  "deliver s dev iev =
     (let ev = zero_event\<lparr>outDeviceId := report_id s dev,
                          outType := ucast (ev_type iev),
                          outScancode := ucast (ev_code iev)\<rparr>;
          ev = (if unat (ev_type iev) = EV_KEY then
                  (case layout_map (layoutMap dev) (ucast (ev_code iev)) of
                     Some (keycode, flags) \<Rightarrow> ev\<lparr>outKeycode := keycode, outFlags := flags\<rparr>
                   | None \<Rightarrow> ev\<lparr>outKeycode := 0, outFlags := 0\<rparr>)
                else ev\<lparr>outKeycode := ucast (ev_code iev)\<rparr>)
      in ev\<lparr>outValue := ev_value iev,
            outWhen := s2ns (scast (tv_sec iev)) + us2ns (scast (tv_usec iev))\<rparr>)"

text \<open>
  One wake-up of \<^verbatim>\<open>poll\<close>: its result, the \<^verbatim>\<open>revents\<close> it leaves at each index of the
  poll set, what \<^verbatim>\<open>read\<close> yields at an index (\<open>None\<close> for an error or a short read), and
  the records \<^verbatim>\<open>read_notify\<close> finds on the watcher descriptor (\<open>None\<close> when that read
  fails); a record carries its mask, its name and, for a created node, the answers the
  node gives to discovery.
\<close>

record inotify_event =
  in_create :: bool
  in_name :: string
  in_fixture :: fixture

record poll_round =
  pollres :: int
  revents :: "nat \<Rightarrow> 16 word"
  reads :: "nat \<Rightarrow> input_event option"
  notify :: "inotify_event list option"

definition device_path :: string where
  "device_path = ''/dev/input''"

text \<open>\<^verbatim>\<open>read_notify\<close>, lines 945-1007: a record without a name is skipped, a created node is
  opened, anything else is closed.\<close>

fun read_notify_events :: "inotify_event list \<Rightarrow> EventHub \<Rightarrow> fault + EventHub" where
  "read_notify_events [] s = Inr s"
| "read_notify_events (e # es) s =
     (if in_name e = [] then read_notify_events es s
      else if in_create e
      then read_notify_events es (snd (open_device (in_fixture e) (device_path @ ''/'' @ in_name e) s))
      else (case close_device (device_path @ ''/'' @ in_name e) s of
              Inl f \<Rightarrow> Inl f
            | Inr (rc, s') \<Rightarrow> read_notify_events es s'))"

definition read_notify :: "inotify_event list option \<Rightarrow> EventHub \<Rightarrow> fault + EventHub" where
  "read_notify r s = (case r of None \<Rightarrow> Inr s | Some es \<Rightarrow> read_notify_events es s)"

text \<open>The scan of lines 381-450 over the indices still to visit.\<close>

fun scan_fds :: "poll_round \<Rightarrow> EventHub \<Rightarrow> nat list \<Rightarrow> fault + RawEvent option" where
  "scan_fds r s [] = Inr None"
| "scan_fds r s (i # is) =
     (if revents r i \<noteq> 0 \<and> revents r i AND POLLIN \<noteq> 0 then
        (case reads r i of
           None \<Rightarrow> scan_fds r s is
         | Some iev \<Rightarrow>
             if length (mDevices s) \<le> i then Inl OutOfBounds
             else (case mDevices s ! i of
                     None \<Rightarrow> Inl NullPointer
                   | Some dev \<Rightarrow> Inr (Some (deliver s dev iev))))
      else scan_fds r s is)"

text \<open>
  The loop of \<^verbatim>\<open>getEvent\<close>, lines 336-491: the pending lists are drained first
  (lines 342-362; a record taken from the closing list is deleted, and the head of the
  opening list is read whether or not it has been deleted), then the hub waits in
  \<^verbatim>\<open>poll\<close>.  The loop runs over the wake-ups still
  to come; the call returns an event, or is still blocked in \<^verbatim>\<open>poll\<close> when they run out
  (\<open>None\<close>).
\<close>

definition drain_pending :: "EventHub \<Rightarrow> fault + (RawEvent \<times> EventHub) option" where
  "drain_pending s =
     (case mClosingDevices s of
        dev # rest \<Rightarrow>
          Inr (Some (zero_event\<lparr>outDeviceId := report_id s dev, outType := DEVICE_REMOVED\<rparr>,
                     delete_device dev (s\<lparr>mClosingDevices := rest\<rparr>)))
      | [] \<Rightarrow>
          (case mOpeningDevices s of
             dev # rest \<Rightarrow>
               if obj dev \<in> set (freed s) then Inl UseAfterFree
               else Inr (Some (zero_event\<lparr>outDeviceId := report_id s dev, outType := DEVICE_ADDED\<rparr>,
                               s\<lparr>mOpeningDevices := rest\<rparr>))
           | [] \<Rightarrow> Inr None))"

fun getEvent_loop :: "poll_round list \<Rightarrow> EventHub \<Rightarrow> fault + (RawEvent option \<times> EventHub)" where
  "getEvent_loop [] s =
     (case drain_pending s of
        Inl f \<Rightarrow> Inl f
      | Inr (Some (ev, s')) \<Rightarrow> Inr (Some ev, s')
      | Inr None \<Rightarrow> Inr (None, s))"
| "getEvent_loop (r # rs) s =
     (case drain_pending s of
        Inl f \<Rightarrow> Inl f
      | Inr (Some (ev, s')) \<Rightarrow> Inr (Some ev, s')
      | Inr None \<Rightarrow>
          if pollres r \<le> 0 then getEvent_loop rs s
          else (case scan_fds r s [1 ..< mFDCount s] of
                  Inl f \<Rightarrow> Inl f
                | Inr (Some ev) \<Rightarrow> Inr (Some ev, s)
                | Inr None \<Rightarrow>
                    if revents r 0 AND POLLIN \<noteq> 0 then
                      (case read_notify (notify r) s of
                         Inl f \<Rightarrow> Inl f
                       | Inr s' \<Rightarrow> getEvent_loop rs s')
                    else getEvent_loop rs s))"

text \<open>\<^verbatim>\<open>scan_dir\<close>, lines 1010-1032, over the nodes of the directory and their answers, and
  \<^verbatim>\<open>openPlatformInput\<close>, lines 497-546, with the descriptor \<^verbatim>\<open>inotify_init\<close> returns.\<close>

fun scan_dir :: "(string \<times> fixture) list \<Rightarrow> EventHub \<Rightarrow> EventHub" where
  "scan_dir [] s = s"
| "scan_dir ((d_name, fx) # des) s =
     (if d_name = ''.'' \<or> d_name = ''..'' then scan_dir des s
      else scan_dir des (snd (open_device fx (device_path @ ''/'' @ d_name) s)))"

definition openPlatformInput :: "int \<Rightarrow> (string \<times> fixture) list option \<Rightarrow> EventHub \<Rightarrow> EventHub" where
  "openPlatformInput inotify_fd dir s =
     (let s = s\<lparr>mFDs := [inotify_fd], mDevices := [None], mFDs_rest := [],
                 os_open := inotify_fd # os_open s\<rparr>
      in case dir of None \<Rightarrow> s | Some des \<Rightarrow> scan_dir des s)"

text \<open>\<^verbatim>\<open>getEvent\<close>, lines 306-492.\<close>

definition getEvent ::
  "int \<Rightarrow> (string \<times> fixture) list option \<Rightarrow> poll_round list \<Rightarrow> EventHub
     \<Rightarrow> fault + (RawEvent option \<times> EventHub)" where
  "getEvent inotify_fd dir rs s =
     getEvent_loop rs
       (if \<not> mOpened s
        then (openPlatformInput inotify_fd dir s)\<lparr>mError := NO_ERROR, mOpened := True\<rparr>
        else s)"

section \<open>Runs of the hub\<close>

text \<open>
  The hub starts as the constructor leaves it.  The first call of \<^verbatim>\<open>getEvent\<close> allocates
  the poll set (\<^verbatim>\<open>openPlatformInput\<close>), scans the directory with \<^verbatim>\<open>open_device\<close> and sets
  \<^verbatim>\<open>mError\<close> and \<^verbatim>\<open>mOpened\<close> (lines 331-334); from then on the registry is changed by
  \<^verbatim>\<open>open_device\<close> and \<^verbatim>\<open>close_device\<close>, called by the watcher, and by the pump when it
  reports a pending record; \<^verbatim>\<open>addExcludedDevice\<close> can be called at any time.  A state is
  reachable when such steps lead to it from the constructed hub.  The steps are taken one
  at a time, so the states in the middle of a directory scan or of a batch of watcher
  records are reachable too, and every state a call of \<^verbatim>\<open>getEvent\<close> returns in is
  reachable.
\<close>

inductive reachable :: "EventHub \<Rightarrow> bool" where
  reach_new: "reachable new_EventHub"
| reach_exclude: "reachable s \<Longrightarrow> reachable (addExcludedDevice n s)"
| reach_platform: "reachable s \<Longrightarrow> \<not> mOpened s \<Longrightarrow> reachable (openPlatformInput inotify_fd None s)"
| reach_opened: "reachable s \<Longrightarrow> reachable (s\<lparr>mError := NO_ERROR, mOpened := True\<rparr>)"
| reach_open: "reachable s \<Longrightarrow> reachable (snd (open_device fx deviceName s))"
| reach_close: "reachable s \<Longrightarrow> close_device deviceName s = Inr (rc, s') \<Longrightarrow> reachable s'"
| reach_drain: "reachable s \<Longrightarrow> drain_pending s = Inr (Some (ev, s')) \<Longrightarrow> reachable s'"

text \<open>A script of opens and closes, run from a given state; a fault ends the run.\<close>

datatype hub_op = Open fixture string | Close string

fun run_ops :: "hub_op list \<Rightarrow> EventHub \<Rightarrow> fault + EventHub" where
  "run_ops [] s = Inr s"
| "run_ops (Open fx deviceName # ops) s = run_ops ops (snd (open_device fx deviceName s))"
| "run_ops (Close deviceName # ops) s =
     (case close_device deviceName s of
        Inl f \<Rightarrow> Inl f
      | Inr (rc, s') \<Rightarrow> run_ops ops s')"

text \<open>The slot \<^verbatim>\<open>open_device\<close> picks in a state, the sequence stored for a slot (zero for
  the entry the table is about to grow by), the composite id lines 659-687 build from
  them, the hub as it stands at line 696 when no early return is taken, and the record
  and hub as they stand at line 850.\<close>

definition open_slot :: "EventHub \<Rightarrow> nat" where
  "open_slot s = free_slot (mDevicesById s) 0"

definition slot_seq :: "EventHub \<Rightarrow> nat \<Rightarrow> uint32" where
  "slot_seq s devid = (if devid < mNumDevicesById s then seq (mDevicesById s ! devid) else 0)"

definition new_id :: "EventHub \<Rightarrow> int32" where
  "new_id s = word_of_nat (open_slot s) OR next_seq (slot_seq s (open_slot s))"

definition probing_hub :: "fixture \<Rightarrow> EventHub \<Rightarrow> EventHub" where
  "probing_hub fx s =
     construct_device (fx_fd fx)
       (realloc_fds
          (advance_seq (open_slot s)
             (grow_table (open_slot s) (s\<lparr>os_open := fx_fd fx # os_open s\<rparr>))))"

definition candidate :: "fixture \<Rightarrow> string \<Rightarrow> EventHub \<Rightarrow> device_t \<times> EventHub" where
  "candidate fx deviceName s =
     (let key_bitmask = ioctl_bits ((KEY_MAX + 7) div 8) (fx_key fx)
      in classify_device fx (probe_name fx) key_bitmask
           (cache_key_bitmask fx key_bitmask
              (classify_keyboard fx key_bitmask
                 (new_device_t (allocated s) (new_id s) deviceName (probe_name fx))))
           (probing_hub fx s))"

subsection \<open>Example devices\<close>

text \<open>
  A node that answers the mandatory ioctls and reports nothing else; a multi-touch screen
  (\<^verbatim>\<open>ABS_MT_TOUCH_MAJOR\<close>, \<^verbatim>\<open>ABS_MT_POSITION_X\<close>, \<^verbatim>\<open>ABS_MT_POSITION_Y\<close>: bits 48, 53 and 54);
  a keypad with the key of scancode 16 and a layout file of its own; a keyboard with the
  same key and no layout file; a headset that reports \<^verbatim>\<open>SW_HEADPHONE_INSERT\<close> (bit 2) and
  the switch of bit 5; a controller whose only key is \<^verbatim>\<open>BTN_TRIGGER\<close> (bit 288, above
  \<^verbatim>\<open>BTN_MISC\<close>).
\<close>

definition fx_none :: "int \<Rightarrow> string \<Rightarrow> fixture" where
  "fx_none fd nm =
     \<lparr>fx_fd = fd, fx_version = True, fx_id = True, fx_name = Some nm,
      fx_key = None, fx_rel = None, fx_abs = None, fx_sw = None,
      fx_kl_own = None, fx_kl_default = [],
      fx_oom_devids = False, fx_oom_fds = False, fx_oom_device = False,
      fx_oom_keybitmask = False\<rparr>"

definition fx_touchscreen :: "int \<Rightarrow> fixture" where
  "fx_touchscreen fd = (fx_none fd ''touchscreen'')\<lparr>fx_abs := Some [0, 0, 0, 0, 0, 0, 0x61]\<rparr>"

definition fx_keypad :: "int \<Rightarrow> fixture" where
  "fx_keypad fd =
     (fx_none fd ''omap-keypad'')\<lparr>fx_key := Some [0, 0, 1],
        fx_kl_own := Some [(16, 45, 0), (30, 29, 1)]\<rparr>"

definition fx_keyboard :: "int \<Rightarrow> fixture" where
  "fx_keyboard fd =
     (fx_none fd ''gpio-keys'')\<lparr>fx_key := Some [0, 0, 1], fx_kl_default := [(16, 45, 0)]\<rparr>"

definition fx_headset :: "int \<Rightarrow> fixture" where
  "fx_headset fd = (fx_none fd ''h2w headset'')\<lparr>fx_sw := Some [0x24]\<rparr>"

definition fx_controller :: "int \<Rightarrow> fixture" where
  "fx_controller fd =
     (fx_none fd ''controller'')\<lparr>fx_key := Some (replicate 36 0 @ [1])\<rparr>"

definition started_hub :: EventHub where
  "started_hub = (openPlatformInput 3 None new_EventHub)\<lparr>mError := NO_ERROR, mOpened := True\<rparr>"

text \<open>The answers and the state under which \<^verbatim>\<open>open_device\<close> takes none of the early returns
  of lines 596-691 and reaches the classification.\<close>

definition reaches_probe :: "fixture \<Rightarrow> EventHub \<Rightarrow> bool" where
  "reaches_probe fx s \<longleftrightarrow>
     0 \<le> fx_fd fx \<and> fx_version fx \<and> fx_id fx \<and> probe_name fx \<notin> set (mExcludedDevices s)
     \<and> \<not> (mNumDevicesById s \<le> open_slot s \<and> fx_oom_devids fx)
     \<and> \<not> fx_oom_fds fx \<and> \<not> fx_oom_device fx"

text \<open>The hub after the first call of \<^verbatim>\<open>getEvent\<close> found the keypad in the directory and
  reported it, and two wake-ups: a key event at poll index 1 with a scancode the keypad's
  layout maps, and one with a scancode it does not map.\<close>

definition key_round :: poll_round where
  "key_round =
     \<lparr>pollres = 1,
      revents = (\<lambda>i. if i = 1 then POLLIN else 0),
      reads = (\<lambda>i. if i = 1
                 then Some \<lparr>tv_sec = 5, tv_usec = 7, ev_type = 1, ev_code = 30, ev_value = 1\<rparr>
                 else None),
      notify = None\<rparr>"

definition booted_hub :: EventHub where
  "booted_hub =
     (case getEvent 3 (Some [(''event0'', fx_keypad 10)]) [] new_EventHub of
        Inr (ev, s) \<Rightarrow> s
      | Inl f \<Rightarrow> new_EventHub)"

definition miss_round :: poll_round where
  "miss_round =
     \<lparr>pollres = 1,
      revents = (\<lambda>i. if i = 1 then POLLIN else 0),
      reads = (\<lambda>i. if i = 1
                 then Some \<lparr>tv_sec = 5, tv_usec = 7, ev_type = 1, ev_code = 31, ev_value = 1\<rparr>
                 else None),
      notify = None\<rparr>"

text \<open>A wake-up in which the watcher reports a new node, a touch screen, and the hub
  after the call of \<^verbatim>\<open>getEvent\<close> that opened it and reported it.\<close>

definition plug_round :: poll_round where
  "plug_round =
     \<lparr>pollres = 1,
      revents = (\<lambda>i. if i = 0 then POLLIN else 0),
      reads = (\<lambda>i. None),
      notify = Some [\<lparr>in_create = True, in_name = ''event1'', in_fixture = fx_touchscreen 11\<rparr>]\<rparr>"

definition plugged_hub :: EventHub where
  "plugged_hub =
     (case getEvent 3 None [plug_round] booted_hub of
        Inr (ev, s) \<Rightarrow> s
      | Inl f \<Rightarrow> new_EventHub)"

text \<open>Runs used as examples below.  A run that faults has no final hub; \<open>result_hub\<close> then
  answers the hub as constructed.\<close>

definition result_hub :: "fault + EventHub \<Rightarrow> EventHub" where
  "result_hub r = (case r of Inr s \<Rightarrow> s | Inl f \<Rightarrow> new_EventHub)"

definition two_headsets :: EventHub where
  "two_headsets =
     result_hub (run_ops [Open (fx_headset 10) ''/dev/input/event0'',
                          Open (fx_headset 11) ''/dev/input/event1''] started_hub)"

definition plain_after_headset :: EventHub where
  "plain_after_headset =
     result_hub (run_ops [Open (fx_headset 10) ''/dev/input/event0'',
                          Open (fx_none 11 ''sensor'') ''/dev/input/event1''] started_hub)"

definition closed_headset :: EventHub where
  "closed_headset =
     result_hub (run_ops [Open (fx_headset 10) ''/dev/input/event0'',
                          Close ''/dev/input/event0''] started_hub)"

definition churned_hub :: EventHub where
  "churned_hub =
     result_hub (run_ops [Open (fx_touchscreen 10) ''/dev/input/event0'',
                          Open (fx_touchscreen 11) ''/dev/input/event1'',
                          Close ''/dev/input/event0'',
                          Open (fx_touchscreen 12) ''/dev/input/event2''] started_hub)"

definition fx_table_oom :: fixture where
  "fx_table_oom = (fx_touchscreen 10)\<lparr>fx_oom_devids := True\<rparr>"

text \<open>A keyboard that falls back to the default layout, opened before or after the
  keypad.\<close>

definition fallback_keyboard :: EventHub where
  "fallback_keyboard = snd (open_device (fx_keyboard 10) ''/dev/input/event0'' started_hub)"

definition keypad_after_keyboard :: EventHub where
  "keypad_after_keyboard = snd (open_device (fx_keypad 11) ''/dev/input/event1'' fallback_keyboard)"

definition keypad_first :: EventHub where
  "keypad_first = snd (open_device (fx_keypad 10) ''/dev/input/event0'' started_hub)"

text \<open>A slot closed and reassigned next to the first keyboard, and a kernel whose state
  ioctls all fail.\<close>

definition stale_hub :: EventHub where
  "stale_hub =
     result_hub (run_ops [Open (fx_keypad 10) ''/dev/input/event0'',
                          Open (fx_touchscreen 11) ''/dev/input/event1'',
                          Close ''/dev/input/event1'',
                          Open (fx_touchscreen 12) ''/dev/input/event2''] started_hub)"

definition no_kernel :: kernel where
  "no_kernel = \<lparr>EVIOCGABS = (\<lambda>fd axis. None), EVIOCGSW = (\<lambda>fd. None), EVIOCGKEY = (\<lambda>fd. None)\<rparr>"

text \<open>
  What discovery establishes for every record and the pump relies on: the key bitmask is
  cached exactly for a keyboard, and a record without it was never given a layout.  The
  poll set and the device array have the same length.
\<close>

definition keyboard_record :: "device_t \<Rightarrow> bool" where
  "keyboard_record d \<longleftrightarrow>
     (keyBitmask d = None) = (classes d AND CLASS_KEYBOARD = 0)
     \<and> (keyBitmask d = None \<longrightarrow> layoutMap d = new_KeyLayoutMap)"

definition poll_inv :: "EventHub \<Rightarrow> bool" where
  "poll_inv s \<longleftrightarrow>
     length (mDevices s) = length (mFDs s)
     \<and> (\<forall>d. Some d \<in> set (mDevices s) \<longrightarrow> keyboard_record d)"

text \<open>The hub with the keypad and a touch screen open, before the touch screen is closed
  and its slot reassigned.\<close>

definition paired_hub :: EventHub where
  "paired_hub =
     result_hub (run_ops [Open (fx_keypad 10) ''/dev/input/event0'',
                          Open (fx_touchscreen 11) ''/dev/input/event1''] started_hub)"

text \<open>
  What a run keeps of the identity table while the table has at most \<open>2^16\<close> entries, the
  range of the slot field of an id: a stored sequence lies inside \<^verbatim>\<open>SEQ_MASK\<close>, an occupied
  slot has a nonzero sequence and holds a record whose id is the slot index joined with
  that sequence, no record is twice in the poll set, and every record of the poll set sits
  in the table.
\<close>

definition seq_table :: "device_ent list \<Rightarrow> bool" where
  "seq_table T \<longleftrightarrow>
     (\<forall>i<length T.
        seq (T ! i) AND SEQ_MASK = seq (T ! i)
        \<and> (\<forall>d. device (T ! i) = Some d \<longrightarrow>
               seq (T ! i) \<noteq> 0 \<and> dev_id d = word_of_nat i OR seq (T ! i)))"

definition table_inv :: "EventHub \<Rightarrow> bool" where
  "table_inv s \<longleftrightarrow>
     seq_table (mDevicesById s)
     \<and> distinct (mDevices s)
     \<and> (\<forall>d. Some d \<in> set (mDevices s) \<longrightarrow>
            (\<exists>i<length (mDevicesById s). device (mDevicesById s ! i) = Some d))"

subsection \<open>Sequence steps of a run\<close>

text \<open>
  \<^verbatim>\<open>open_device\<close> advances the sequence of the slot it picked (lines 659-662) before it
  grows the poll set, allocates the record and classifies the device: an open that is
  dropped afterwards, or fails on one of those allocations, has advanced the sequence all
  the same.  These are the answers and the state under which an open gets that far.
\<close>

definition reaches_seq_step :: "fixture \<Rightarrow> EventHub \<Rightarrow> bool" where
  "reaches_seq_step fx s \<longleftrightarrow>
     0 \<le> fx_fd fx \<and> fx_version fx \<and> fx_id fx \<and> probe_name fx \<notin> set (mExcludedDevices s)
     \<and> \<not> (mNumDevicesById s \<le> open_slot s \<and> fx_oom_devids fx)"

text \<open>
  The runs that start in a hub \<open>s\<close>, with a count for one slot: \<open>evolves slot s k s'\<close> holds
  when \<open>s'\<close> comes from \<open>s\<close> by calls of \<^verbatim>\<open>addExcludedDevice\<close>, \<^verbatim>\<open>open_device\<close> and
  \<^verbatim>\<open>close_device\<close>, by lines 331-334 of \<^verbatim>\<open>getEvent\<close> and by its reports of pending
  devices, and \<open>k\<close> of the opens picked \<open>slot\<close> and reached line 659, whatever they
  returned.
\<close>

inductive evolves :: "nat \<Rightarrow> EventHub \<Rightarrow> nat \<Rightarrow> EventHub \<Rightarrow> bool" for slot :: nat and s :: EventHub where
  ev_refl: "evolves slot s 0 s"
| ev_exclude: "evolves slot s k s1 \<Longrightarrow> evolves slot s k (addExcludedDevice n s1)"
| ev_opened: "evolves slot s k s1 \<Longrightarrow> evolves slot s k (s1\<lparr>mError := NO_ERROR, mOpened := True\<rparr>)"
| ev_open: "evolves slot s k s1 \<Longrightarrow>
     evolves slot s (if reaches_seq_step fx s1 \<and> open_slot s1 = slot then Suc k else k)
       (snd (open_device fx deviceName s1))"
| ev_close: "evolves slot s k s1 \<Longrightarrow> close_device deviceName s1 = Inr (rc, s2) \<Longrightarrow> evolves slot s k s2"
| ev_drain: "evolves slot s k s1 \<Longrightarrow> drain_pending s1 = Inr (Some (ev, s2)) \<Longrightarrow> evolves slot s k s2"

text \<open>The hub after the touch screen of \<open>paired_hub\<close> was closed; the open of a device that
  reports no capability and is dropped; and the hub after 32766 such opens followed by the
  open of another touch screen.\<close>

definition released_hub :: EventHub where
  "released_hub = result_hub (run_ops [Close ''/dev/input/event1''] paired_hub)"

definition drop_sensor :: "EventHub \<Rightarrow> EventHub" where
  "drop_sensor s = snd (open_device (fx_none 12 ''sensor'') ''/dev/input/event2'' s)"

definition wrapped_hub :: EventHub where
  "wrapped_hub =
     snd (open_device (fx_touchscreen 12) ''/dev/input/event2'' ((drop_sensor ^^ 32766) released_hub))"

text \<open>What the dropped opens keep of \<open>released_hub\<close>: the records of the identity table, an
  empty exclusion list and a free headphone cell.\<close>

definition idle_slot :: "EventHub \<Rightarrow> bool" where
  "idle_slot s \<longleftrightarrow>
     map device (mDevicesById s) = map device (mDevicesById released_hub)
     \<and> mExcludedDevices s = [] \<and> mSwitches s SW_HEADPHONE_INSERT = 0"

subsection \<open>The tests of the other classes\<close>

text \<open>
  The conditions under which lines 728-789 give a record a class other than
  \<^verbatim>\<open>CLASS_KEYBOARD\<close>, on the answers of the ioctls: a mouse or trackball (lines 729-742), a
  touch screen of either kind (lines 750-768), a headset (line 787 reads the cell of
  \<^verbatim>\<open>SW_HEADPHONE_INSERT\<close> after the claiming loop, so a cell that was already claimed
  counts as well).
\<close>

definition pointer_probe :: "fixture \<Rightarrow> uint8 list \<Rightarrow> bool" where
  "pointer_probe fx key_bitmask \<longleftrightarrow>
     test_bit BTN_MOUSE key_bitmask \<and> fx_rel fx \<noteq> None
     \<and> test_bit REL_X (ioctl_bits ((REL_MAX + 7) div 8) (fx_rel fx))
     \<and> test_bit REL_Y (ioctl_bits ((REL_MAX + 7) div 8) (fx_rel fx))"

definition touch_probe :: "fixture \<Rightarrow> uint8 list \<Rightarrow> bool" where
  "touch_probe fx key_bitmask \<longleftrightarrow>
     (let abs_bitmask = ioctl_bits ((ABS_MAX + 7) div 8) (fx_abs fx)
      in (test_bit ABS_MT_TOUCH_MAJOR abs_bitmask \<and> test_bit ABS_MT_POSITION_X abs_bitmask
            \<and> test_bit ABS_MT_POSITION_Y abs_bitmask)
         \<or> (test_bit BTN_TOUCH key_bitmask \<and> test_bit ABS_X abs_bitmask
              \<and> test_bit ABS_Y abs_bitmask))"

definition headset_probe :: "fixture \<Rightarrow> EventHub \<Rightarrow> bool" where
  "headset_probe fx s \<longleftrightarrow>
     mSwitches s SW_HEADPHONE_INSERT \<noteq> 0
     \<or> (fx_sw fx \<noteq> None
          \<and> test_bit SW_HEADPHONE_INSERT (ioctl_bits ((SW_MAX + 7) div 8) (fx_sw fx)))"

section \<open>The sequence counter\<close>

lemma nat_seq_step:
  "take_bit 15 (drop_bit 16 (take_bit 32 (n + 65536))) =
   take_bit 15 (take_bit 32 (drop_bit 16 n + 1) :: nat)"
proof -
  have "drop_bit 16 (n + 65536) = drop_bit 16 n + 1" by (simp add: drop_bit_eq_div)
  then show ?thesis by (simp add: drop_bit_take_bit)
qed

lemma seq_step_arith:
  "drop_bit 16 ((q + 0x10000) AND 0x7fff0000 :: 32 word) = (drop_bit 16 q + 1) AND 0x7fff"
proof -
  have m2: "(0x7fff :: 32 word) = mask 15" by (simp add: mask_eq_exp_minus_1)
  have m3: "drop_bit 16 (0x7fff0000 :: 32 word) = 0x7fff" by (simp add: drop_bit_eq_div)
  have l: "drop_bit 16 ((q + 0x10000) AND 0x7fff0000 :: 32 word)
             = take_bit 15 (drop_bit 16 (q + 0x10000))"
    by (simp only: drop_bit_and m3 m2 take_bit_eq_mask)
  have r: "(drop_bit 16 q + 1) AND 0x7fff = take_bit 15 (drop_bit 16 q + 1)"
    by (simp only: m2 take_bit_eq_mask)
  have u1: "unat (q + 0x10000) = take_bit 32 (unat q + 65536)"
    by (simp add: unat_word_ariths take_bit_eq_mod)
  have u2: "unat (drop_bit 16 q + 1) = take_bit 32 (drop_bit 16 (unat q) + 1)"
    by (simp add: unat_word_ariths take_bit_eq_mod unat_drop_bit_eq)
  have "unat (take_bit 15 (drop_bit 16 (q + 0x10000))) = unat (take_bit 15 (drop_bit 16 q + 1))"
    by (simp only: unsigned_take_bit_eq unat_drop_bit_eq u1 u2 nat_seq_step)
  then have "take_bit 15 (drop_bit 16 (q + 0x10000)) = take_bit 15 (drop_bit 16 q + 1)"
    by (simp only: word_unat_eq_iff)
  then show ?thesis by (simp only: l r)
qed

lemma masked_zero_iff:
  "(x AND 0x7fff0000 :: 32 word) = 0 \<longleftrightarrow> drop_bit 16 (x AND 0x7fff0000) = 0"
proof
  assume "drop_bit 16 (x AND 0x7fff0000) = 0"
  moreover have "take_bit 16 (x AND 0x7fff0000) = 0"
    by (simp add: take_bit_eq_mask and.assoc mask_eq_exp_minus_1)
  moreover have "push_bit 16 (drop_bit 16 (x AND 0x7fff0000)) + take_bit 16 (x AND 0x7fff0000)
                   = x AND 0x7fff0000"
    by (rule bits_ident)
  ultimately show "x AND 0x7fff0000 = 0" by simp
qed simp

lemma next_seq_unfold:
  "next_seq q =
     (if (q + 0x10000) AND 0x7fff0000 = 0 then 0x10000 else (q + 0x10000) AND 0x7fff0000)"
  by (simp add: next_seq_def Let_def hub_consts)

lemma next_seq_drop:
  "drop_bit SEQ_SHIFT (next_seq q) =
     (let n = (drop_bit SEQ_SHIFT q + 1) AND 0x7fff in if n = 0 then 1 else n)"
proof (cases "(q + 0x10000) AND 0x7fff0000 = 0")
  case True
  then have "(drop_bit 16 q + 1) AND 0x7fff = 0"
    using seq_step_arith[of q] by simp
  moreover have "drop_bit 16 (0x10000 :: 32 word) = 1" by (simp add: drop_bit_eq_div)
  ultimately show ?thesis using True by (simp add: next_seq_unfold SEQ_SHIFT_def)
next
  case False
  then have "(drop_bit 16 q + 1) AND 0x7fff \<noteq> 0"
    using seq_step_arith[of q] masked_zero_iff[of "q + 0x10000"] by simp
  moreover have "drop_bit 16 (next_seq q) = (drop_bit 16 q + 1) AND 0x7fff"
    using False by (simp only: next_seq_unfold if_False seq_step_arith)
  ultimately show ?thesis by (simp only: SEQ_SHIFT_def Let_def if_False)
qed

lemma next_seq_nonzero: "next_seq q \<noteq> 0"
  by (simp add: next_seq_unfold)

lemma next_seq_masked: "next_seq q AND SEQ_MASK = next_seq q"
  by (simp add: next_seq_unfold hub_consts and.assoc)

lemma masked_incr: "((x::32 word) + 1) AND 0x7fff = ((x AND 0x7fff) + 1) AND 0x7fff"
proof -
  have m2: "(0x7fff :: 32 word) = mask 15" by (simp add: mask_eq_exp_minus_1)
  have u: "unat (y + 1) = take_bit 32 (Suc (unat y))" for y :: "32 word"
    by (simp add: unat_word_ariths take_bit_eq_mod)
  have n: "take_bit 15 (Suc (take_bit 15 (unat x))) = take_bit 15 (Suc (unat x))"
    by (simp add: take_bit_eq_mod mod_simps)
  have "unat (take_bit 15 (x + 1)) = unat (take_bit 15 (take_bit 15 x + 1))"
    by (simp add: unsigned_take_bit_eq u n)
  then have "take_bit 15 (x + 1) = take_bit 15 (take_bit 15 x + 1)"
    by (simp only: word_unat_eq_iff)
  then show ?thesis by (simp only: m2 take_bit_eq_mask)
qed

lemma next_seq_wrap:
  assumes "drop_bit SEQ_SHIFT q AND 0x7fff = 0x7fff"
  shows "next_seq q = push_bit SEQ_SHIFT 1"
proof -
  have "(drop_bit 16 q + 1) AND 0x7fff = ((drop_bit 16 q AND 0x7fff) + 1) AND 0x7fff"
    by (rule masked_incr)
  also have "\<dots> = 0" using assms by (simp add: SEQ_SHIFT_def)
  finally have "drop_bit 16 ((q + 0x10000) AND 0x7fff0000) = 0"
    by (simp only: seq_step_arith)
  then have "(q + 0x10000) AND 0x7fff0000 = 0"
    by (simp only: masked_zero_iff[symmetric])
  then show ?thesis by (simp add: next_seq_unfold SEQ_SHIFT_def)
qed

lemma composite_seq_bits: "(d OR next_seq q) AND SEQ_MASK \<noteq> 0"
proof -
  have "(d OR next_seq q) AND SEQ_MASK = (d AND SEQ_MASK) OR next_seq q"
    by (simp only: bit.conj_disj_distrib2 next_seq_masked)
  then show ?thesis using next_seq_nonzero[of q] by (simp add: or_eq_0_iff)
qed

lemma seq_mask_high: "\<not> bit SEQ_MASK 31"
  by (simp only: bit_iff_odd_drop_bit SEQ_MASK_def) (simp add: drop_bit_eq_div)

lemma composite_high_bit:
  assumes "devid < 2 ^ 31"
  shows "\<not> bit (word_of_nat devid OR next_seq q :: 32 word) 31"
proof -
  have "\<not> bit (next_seq q AND SEQ_MASK) 31"
    by (simp only: bit_and_iff seq_mask_high) simp
  then have "\<not> bit (next_seq q) 31" by (simp add: next_seq_masked)
  moreover have "\<not> bit (word_of_nat devid :: 32 word) 31"
  proof -
    have "drop_bit 31 devid = 0" using assms by (simp add: drop_bit_eq_div)
    then have "\<not> bit devid 31" by (simp only: bit_iff_odd_drop_bit) simp
    then show ?thesis by (simp only: bit_of_nat_iff) simp
  qed
  ultimately show ?thesis by (simp only: bit_or_iff) simp
qed

lemma composite_slot:
  assumes "devid < 2 ^ 16"
  shows "(word_of_nat devid OR next_seq q) AND ID_MASK = word_of_nat devid"
proof -
  have "next_seq q AND ID_MASK = (next_seq q AND SEQ_MASK) AND ID_MASK"
    by (simp only: next_seq_masked)
  also have "\<dots> = 0" by (simp add: and.assoc hub_consts)
  finally have a: "next_seq q AND ID_MASK = 0" .
  have m: "ID_MASK = mask 16" by (simp add: ID_MASK_def mask_eq_exp_minus_1)
  have "take_bit 16 (word_of_nat devid :: 32 word) = word_of_nat (take_bit 16 devid)"
    by (simp only: take_bit_of_nat)
  also have "take_bit 16 devid = devid" using assms by (simp add: take_bit_nat_eq_self)
  finally have b: "(word_of_nat devid :: 32 word) AND ID_MASK = word_of_nat devid"
    by (simp only: m take_bit_eq_mask)
  show ?thesis by (simp only: bit.conj_disj_distrib2 a b) simp
qed

section \<open>The slot search\<close>

lemma free_slot_le: "free_slot es k \<le> k + length es"
proof (induction es arbitrary: k)
  case Nil then show ?case by simp
next
  case (Cons e es)
  from Cons[of "Suc k"] show ?case by simp
qed

lemma free_slot_ge: "k \<le> free_slot es k"
  by (induction es arbitrary: k) (auto intro: Suc_leD)

lemma free_slot_free:
  "free_slot es k < k + length es \<Longrightarrow> device (es ! (free_slot es k - k)) = None"
proof (induction es arbitrary: k)
  case Nil then show ?case by simp
next
  case (Cons e es)
  show ?case
  proof (cases "device e = None")
    case True then show ?thesis by simp
  next
    case False
    have "Suc k \<le> free_slot es (Suc k)" by (rule free_slot_ge)
    then have "free_slot es (Suc k) - k = Suc (free_slot es (Suc k) - Suc k)" by simp
    with Cons.IH[of "Suc k"] Cons.prems False show ?thesis by auto
  qed
qed

lemma free_slot_occupied:
  "i < free_slot es k - k \<Longrightarrow> i < length es \<Longrightarrow> device (es ! i) \<noteq> None"
proof (induction es arbitrary: k i)
  case Nil then show ?case by simp
next
  case (Cons e es)
  show ?case
  proof (cases "device e = None")
    case True with Cons.prems show ?thesis by simp
  next
    case False
    show ?thesis
    proof (cases i)
      case 0 with False show ?thesis by simp
    next
      case (Suc j)
      have "Suc k \<le> free_slot es (Suc k)" by (rule free_slot_ge)
      with Cons.prems False Suc have "j < free_slot es (Suc k) - Suc k" by simp
      with Cons.IH[of j "Suc k"] Cons.prems Suc show ?thesis by simp
    qed
  qed
qed

lemma open_slot_le: "open_slot s \<le> mNumDevicesById s"
  using free_slot_le[of "mDevicesById s" 0] by (simp add: open_slot_def mNumDevicesById_def)

section \<open>What classification keeps\<close>

lemma classify_keyboard_fields [simp]:
  "obj (classify_keyboard fx kb d) = obj d"
  "dev_id (classify_keyboard fx kb d) = dev_id d"
  "path (classify_keyboard fx kb d) = path d"
  "name (classify_keyboard fx kb d) = name d"
  "keyBitmask (classify_keyboard fx kb d) = keyBitmask d"
  "layoutMap (classify_keyboard fx kb d) = layoutMap d"
  by (simp_all add: classify_keyboard_def)

lemma cache_key_bitmask_fields [simp]:
  "obj (cache_key_bitmask fx kb d) = obj d"
  "dev_id (cache_key_bitmask fx kb d) = dev_id d"
  "path (cache_key_bitmask fx kb d) = path d"
  "name (cache_key_bitmask fx kb d) = name d"
  "classes (cache_key_bitmask fx kb d) = classes d"
  "layoutMap (cache_key_bitmask fx kb d) = layoutMap d"
  by (simp_all add: cache_key_bitmask_def)

lemma classify_pointer_fields [simp]:
  "obj (classify_pointer fx kb d) = obj d"
  "dev_id (classify_pointer fx kb d) = dev_id d"
  "path (classify_pointer fx kb d) = path d"
  "name (classify_pointer fx kb d) = name d"
  "keyBitmask (classify_pointer fx kb d) = keyBitmask d"
  "layoutMap (classify_pointer fx kb d) = layoutMap d"
  by (simp_all add: classify_pointer_def Let_def)

lemma classify_touch_fields [simp]:
  "obj (classify_touch fx kb d) = obj d"
  "dev_id (classify_touch fx kb d) = dev_id d"
  "path (classify_touch fx kb d) = path d"
  "name (classify_touch fx kb d) = name d"
  "keyBitmask (classify_touch fx kb d) = keyBitmask d"
  "layoutMap (classify_touch fx kb d) = layoutMap d"
  by (simp_all add: classify_touch_def Let_def)

lemma classify_headset_fields [simp]:
  "obj (classify_headset sw d) = obj d"
  "dev_id (classify_headset sw d) = dev_id d"
  "path (classify_headset sw d) = path d"
  "name (classify_headset sw d) = name d"
  "keyBitmask (classify_headset sw d) = keyBitmask d"
  "layoutMap (classify_headset sw d) = layoutMap d"
  by (simp_all add: classify_headset_def)

lemma classify_keys_fields [simp]:
  "obj (classify_keys d) = obj d"
  "dev_id (classify_keys d) = dev_id d"
  "path (classify_keys d) = path d"
  "name (classify_keys d) = name d"
  "keyBitmask (classify_keys d) = keyBitmask d"
  "layoutMap (classify_keys d) = layoutMap d"
  by (simp_all add: classify_keys_def Let_def)

lemma load_layout_fields [simp]:
  "obj (load_layout fx nm d) = obj d"
  "dev_id (load_layout fx nm d) = dev_id d"
  "path (load_layout fx nm d) = path d"
  "classes (load_layout fx nm d) = classes d"
  "keyBitmask (load_layout fx nm d) = keyBitmask d"
  by (simp_all add: load_layout_def)

lemma kbd_bit_or:
  "c AND 1 = 0 \<Longrightarrow> (x OR c) AND 1 = x AND (1 :: 32 word)"
  by (simp add: bit.conj_disj_distrib2)

lemma classify_pointer_kbd [simp]:
  "classes (classify_pointer fx kb d) AND CLASS_KEYBOARD = classes d AND CLASS_KEYBOARD"
  by (simp add: classify_pointer_def Let_def kbd_bit_or hub_consts)

lemma classify_touch_kbd [simp]:
  "classes (classify_touch fx kb d) AND CLASS_KEYBOARD = classes d AND CLASS_KEYBOARD"
  by (simp add: classify_touch_def Let_def kbd_bit_or hub_consts)

lemma classify_headset_kbd [simp]:
  "classes (classify_headset sw d) AND CLASS_KEYBOARD = classes d AND CLASS_KEYBOARD"
  by (simp add: classify_headset_def Let_def kbd_bit_or hub_consts)

lemma classify_keys_kbd [simp]:
  "classes (classify_keys d) AND CLASS_KEYBOARD = classes d AND CLASS_KEYBOARD"
  by (simp add: classify_keys_def Let_def kbd_bit_or hub_consts)

lemma seq_after_advance:
  "devid \<le> mNumDevicesById s \<Longrightarrow>
   seq (mDevicesById (advance_seq devid (grow_table devid s)) ! devid) = next_seq (slot_seq s devid)"
  by (auto simp: advance_seq_def grow_table_def slot_seq_def mNumDevicesById_def nth_append)

lemma advance_other_fields [simp]:
  "mFDs (advance_seq devid (grow_table devid s)) = mFDs s"
  "mDevices (advance_seq devid (grow_table devid s)) = mDevices s"
  "mOpeningDevices (advance_seq devid (grow_table devid s)) = mOpeningDevices s"
  "mClosingDevices (advance_seq devid (grow_table devid s)) = mClosingDevices s"
  "mSwitches (advance_seq devid (grow_table devid s)) = mSwitches s"
  "mFirstKeyboardId (advance_seq devid (grow_table devid s)) = mFirstKeyboardId s"
  "mHaveFirstKeyboard (advance_seq devid (grow_table devid s)) = mHaveFirstKeyboard s"
  "mExcludedDevices (advance_seq devid (grow_table devid s)) = mExcludedDevices s"
  "os_open (advance_seq devid (grow_table devid s)) = os_open s"
  "mFDs_rest (advance_seq devid (grow_table devid s)) = mFDs_rest s"
  "allocated (advance_seq devid (grow_table devid s)) = allocated s"
  "freed (advance_seq devid (grow_table devid s)) = freed s"
  "mOpened (advance_seq devid (grow_table devid s)) = mOpened s"
  by (simp_all add: advance_seq_def grow_table_def)

lemma realloc_fds_fields [simp]:
  "mFDs (realloc_fds s) = mFDs s"
  "mDevices (realloc_fds s) = mDevices s"
  "mDevicesById (realloc_fds s) = mDevicesById s"
  "mOpeningDevices (realloc_fds s) = mOpeningDevices s"
  "mClosingDevices (realloc_fds s) = mClosingDevices s"
  "mSwitches (realloc_fds s) = mSwitches s"
  "mFirstKeyboardId (realloc_fds s) = mFirstKeyboardId s"
  "mHaveFirstKeyboard (realloc_fds s) = mHaveFirstKeyboard s"
  "mExcludedDevices (realloc_fds s) = mExcludedDevices s"
  "os_open (realloc_fds s) = os_open s"
  "allocated (realloc_fds s) = allocated s"
  "freed (realloc_fds s) = freed s"
  "mOpened (realloc_fds s) = mOpened s"
  "mNumDevicesById (realloc_fds s) = mNumDevicesById s"
  by (simp_all add: realloc_fds_def mNumDevicesById_def)

lemma construct_device_fields [simp]:
  "mFDs (construct_device fd s) = mFDs s"
  "mDevices (construct_device fd s) = mDevices s"
  "mDevicesById (construct_device fd s) = mDevicesById s"
  "mOpeningDevices (construct_device fd s) = mOpeningDevices s"
  "mClosingDevices (construct_device fd s) = mClosingDevices s"
  "mSwitches (construct_device fd s) = mSwitches s"
  "mFirstKeyboardId (construct_device fd s) = mFirstKeyboardId s"
  "mHaveFirstKeyboard (construct_device fd s) = mHaveFirstKeyboard s"
  "mExcludedDevices (construct_device fd s) = mExcludedDevices s"
  "os_open (construct_device fd s) = os_open s"
  "allocated (construct_device fd s) = Suc (allocated s)"
  "freed (construct_device fd s) = freed s"
  "mFDs_rest (construct_device fd s) = [Some fd]"
  "mOpened (construct_device fd s) = mOpened s"
  "mNumDevicesById (construct_device fd s) = mNumDevicesById s"
  by (simp_all add: construct_device_def mNumDevicesById_def)

lemma delete_device_fields [simp]:
  "mFDs (delete_device d s) = mFDs s"
  "mDevices (delete_device d s) = mDevices s"
  "mDevicesById (delete_device d s) = mDevicesById s"
  "mOpeningDevices (delete_device d s) = mOpeningDevices s"
  "mClosingDevices (delete_device d s) = mClosingDevices s"
  "mSwitches (delete_device d s) = mSwitches s"
  "mFirstKeyboardId (delete_device d s) = mFirstKeyboardId s"
  "mHaveFirstKeyboard (delete_device d s) = mHaveFirstKeyboard s"
  "mExcludedDevices (delete_device d s) = mExcludedDevices s"
  "os_open (delete_device d s) = os_open s"
  "allocated (delete_device d s) = allocated s"
  "freed (delete_device d s) = obj d # freed s"
  "mFDs_rest (delete_device d s) = mFDs_rest s"
  "mOpened (delete_device d s) = mOpened s"
  "mNumDevicesById (delete_device d s) = mNumDevicesById s"
  by (simp_all add: delete_device_def mNumDevicesById_def)

lemma os_close_fields [simp]:
  "mFDs (os_close fd s) = mFDs s"
  "mDevices (os_close fd s) = mDevices s"
  "mDevicesById (os_close fd s) = mDevicesById s"
  "mOpeningDevices (os_close fd s) = mOpeningDevices s"
  "mClosingDevices (os_close fd s) = mClosingDevices s"
  "mSwitches (os_close fd s) = mSwitches s"
  "mFirstKeyboardId (os_close fd s) = mFirstKeyboardId s"
  "mHaveFirstKeyboard (os_close fd s) = mHaveFirstKeyboard s"
  "mExcludedDevices (os_close fd s) = mExcludedDevices s"
  "os_open (os_close fd s) = removeAll fd (os_open s)"
  "allocated (os_close fd s) = allocated s"
  "freed (os_close fd s) = freed s"
  "mFDs_rest (os_close fd s) = mFDs_rest s"
  "mOpened (os_close fd s) = mOpened s"
  "mNumDevicesById (os_close fd s) = mNumDevicesById s"
  by (simp_all add: os_close_def mNumDevicesById_def)

lemma designate_fields [simp]:
  "mFDs (designate_keyboard b nm i s) = mFDs s"
  "mDevices (designate_keyboard b nm i s) = mDevices s"
  "mDevicesById (designate_keyboard b nm i s) = mDevicesById s"
  "mOpeningDevices (designate_keyboard b nm i s) = mOpeningDevices s"
  "mClosingDevices (designate_keyboard b nm i s) = mClosingDevices s"
  "mSwitches (designate_keyboard b nm i s) = mSwitches s"
  "mExcludedDevices (designate_keyboard b nm i s) = mExcludedDevices s"
  "os_open (designate_keyboard b nm i s) = os_open s"
  "mFDs_rest (designate_keyboard b nm i s) = mFDs_rest s"
  "allocated (designate_keyboard b nm i s) = allocated s"
  "freed (designate_keyboard b nm i s) = freed s"
  "mOpened (designate_keyboard b nm i s) = mOpened s"
  by (simp_all add: designate_keyboard_def)

lemma classify_device_dev [simp]:
  "obj (fst (classify_device fx nm kb d s)) = obj d"
  "dev_id (fst (classify_device fx nm kb d s)) = dev_id d"
  "path (fst (classify_device fx nm kb d s)) = path d"
  "keyBitmask (fst (classify_device fx nm kb d s)) = keyBitmask d"
  "classes (fst (classify_device fx nm kb d s)) AND CLASS_KEYBOARD = classes d AND CLASS_KEYBOARD"
  by (simp_all add: classify_device_def Let_def)

lemma classify_device_layout:
  "layoutMap (fst (classify_device fx nm kb d s)) =
     (if classes d AND CLASS_KEYBOARD \<noteq> 0
      then (case fx_kl_own fx of None \<Rightarrow> fx_kl_default fx | Some m \<Rightarrow> m) else layoutMap d)"
  by (simp add: classify_device_def Let_def load_layout_def)

lemma classify_device_hub [simp]:
  "mFDs (snd (classify_device fx nm kb d s)) = mFDs s"
  "mDevices (snd (classify_device fx nm kb d s)) = mDevices s"
  "mDevicesById (snd (classify_device fx nm kb d s)) = mDevicesById s"
  "mOpeningDevices (snd (classify_device fx nm kb d s)) = mOpeningDevices s"
  "mClosingDevices (snd (classify_device fx nm kb d s)) = mClosingDevices s"
  "mExcludedDevices (snd (classify_device fx nm kb d s)) = mExcludedDevices s"
  "os_open (snd (classify_device fx nm kb d s)) = os_open s"
  "mSwitches (snd (classify_device fx nm kb d s)) = claim_switches fx (dev_id d) (mSwitches s)"
  "mFDs_rest (snd (classify_device fx nm kb d s)) = mFDs_rest s"
  "allocated (snd (classify_device fx nm kb d s)) = allocated s"
  "freed (snd (classify_device fx nm kb d s)) = freed s"
  "mOpened (snd (classify_device fx nm kb d s)) = mOpened s"
  by (simp_all add: classify_device_def Let_def)

lemma probing_hub_fields [simp]:
  "mFDs (probing_hub fx s) = mFDs s"
  "mDevices (probing_hub fx s) = mDevices s"
  "mOpeningDevices (probing_hub fx s) = mOpeningDevices s"
  "mClosingDevices (probing_hub fx s) = mClosingDevices s"
  "mSwitches (probing_hub fx s) = mSwitches s"
  "mFirstKeyboardId (probing_hub fx s) = mFirstKeyboardId s"
  "mHaveFirstKeyboard (probing_hub fx s) = mHaveFirstKeyboard s"
  "mExcludedDevices (probing_hub fx s) = mExcludedDevices s"
  "os_open (probing_hub fx s) = fx_fd fx # os_open s"
  "allocated (probing_hub fx s) = Suc (allocated s)"
  "freed (probing_hub fx s) = freed s"
  "mFDs_rest (probing_hub fx s) = [Some (fx_fd fx)]"
  "mOpened (probing_hub fx s) = mOpened s"
  "mDevicesById (probing_hub fx s)
     = mDevicesById (advance_seq (open_slot s) (grow_table (open_slot s) s))"
  by (simp_all add: probing_hub_def)
     (simp add: advance_seq_def grow_table_def mNumDevicesById_def)

section \<open>The outcomes of discovery\<close>

lemma open_device_rc: "fst (open_device fx nm s) = 0 \<or> fst (open_device fx nm s) = -1"
  by (simp add: open_device_def probe_device_def Let_def case_prod_beta)

lemma probe_device_success:
  assumes "probe_device fx devid nm dev s = (0, s')"
  shows "s' = (let kb = ioctl_bits ((KEY_MAX + 7) div 8) (fx_key fx);
                   c = classify_device fx nm kb
                         (cache_key_bitmask fx kb (classify_keyboard fx kb dev)) s
               in register_device devid (fx_fd fx) (fst c) (snd c))
         \<and> classes (fst (classify_device fx nm (ioctl_bits ((KEY_MAX + 7) div 8) (fx_key fx))
               (cache_key_bitmask fx (ioctl_bits ((KEY_MAX + 7) div 8) (fx_key fx))
                  (classify_keyboard fx (ioctl_bits ((KEY_MAX + 7) div 8) (fx_key fx)) dev)) s))
             \<noteq> 0"
  using assms by (simp add: probe_device_def Let_def case_prod_beta split: if_splits)

lemma open_device_id:
  "word_of_nat (free_slot (mDevicesById s) 0)
     OR seq (mDevicesById
               (advance_seq (free_slot (mDevicesById s) 0)
                  (grow_table (free_slot (mDevicesById s) 0)
                     (s\<lparr>os_open := x\<rparr>))) ! free_slot (mDevicesById s) 0)
   = new_id s"
  using seq_after_advance[of "open_slot s" "s\<lparr>os_open := x\<rparr>"] open_slot_le[of s]
  by (simp add: new_id_def slot_seq_def mNumDevicesById_def open_slot_def)

lemma open_device_success:
  assumes "open_device fx nm s = (0, s')"
  shows "s' = register_device (open_slot s) (fx_fd fx)
                (fst (candidate fx nm s)) (snd (candidate fx nm s))
         \<and> classes (fst (candidate fx nm s)) \<noteq> 0"
proof -
  from assms have "probe_device fx (open_slot s) (probe_name fx)
       (new_device_t (allocated s) (new_id s) nm (probe_name fx)) (probing_hub fx s) = (0, s')"
    by (simp add: open_device_def Let_def open_slot_def open_device_id probing_hub_def
        split: if_splits)
  from probe_device_success[OF this] show ?thesis
    by (simp add: candidate_def Let_def)
qed

lemma candidate_dev [simp]:
  "dev_id (fst (candidate fx nm s)) = new_id s"
  "path (fst (candidate fx nm s)) = nm"
  "obj (fst (candidate fx nm s)) = allocated s"
  by (simp_all add: candidate_def Let_def new_device_t_def)

lemma candidate_hub [simp]:
  "mFDs (snd (candidate fx nm s)) = mFDs s"
  "mDevices (snd (candidate fx nm s)) = mDevices s"
  "mOpeningDevices (snd (candidate fx nm s)) = mOpeningDevices s"
  "mClosingDevices (snd (candidate fx nm s)) = mClosingDevices s"
  "mExcludedDevices (snd (candidate fx nm s)) = mExcludedDevices s"
  "os_open (snd (candidate fx nm s)) = fx_fd fx # os_open s"
  "mDevicesById (snd (candidate fx nm s))
     = mDevicesById (advance_seq (open_slot s) (grow_table (open_slot s) s))"
  "allocated (snd (candidate fx nm s)) = Suc (allocated s)"
  "freed (snd (candidate fx nm s)) = freed s"
  "mFDs_rest (snd (candidate fx nm s)) = [Some (fx_fd fx)]"
  "mOpened (snd (candidate fx nm s)) = mOpened s"
  by (simp_all add: candidate_def Let_def)

section \<open>Sequence and composite id\<close>

text \<open>
  C2.  Every \<^verbatim>\<open>open_device\<close> that registers a device advances the sequence of the slot it
  takes from the stored value \<open>old\<close> to \<open>next_seq old\<close>: read as a 15-bit counter (the
  stored value shifted right by \<^verbatim>\<open>SEQ_SHIFT\<close>) the new sequence is \<open>(old + 1) AND 0x7FFF\<close>,
  with 1 in place of 0, so it goes from \<open>0x7FFF\<close> to 1 and is never 0; the stored value
  lies inside \<^verbatim>\<open>SEQ_MASK\<close>, and the composite id \<^verbatim>\<open>devid | seq\<close> of the new record has
  nonzero sequence bits and a zero high bit (for a table below \<open>2^31\<close> entries, the
  range of the \<^verbatim>\<open>int\<close> that counts them).
\<close>

theorem open_device_sequence:
  assumes "open_device fx deviceName s = (0, s')" and "mNumDevicesById s < 2 ^ 31"
  shows "let devid = open_slot s; old = slot_seq s devid; e = mDevicesById s' ! devid
         in seq e = next_seq old
          \<and> drop_bit SEQ_SHIFT (seq e)
              = (let n = (drop_bit SEQ_SHIFT old + 1) AND 0x7FFF in if n = 0 then 1 else n)
          \<and> (drop_bit SEQ_SHIFT old AND 0x7FFF = 0x7FFF \<longrightarrow> drop_bit SEQ_SHIFT (seq e) = 1)
          \<and> drop_bit SEQ_SHIFT (seq e) \<noteq> 0
          \<and> seq e AND SEQ_MASK = seq e
          \<and> (\<exists>dev. device e = Some dev \<and> mOpeningDevices s' = dev # mOpeningDevices s
                \<and> dev_id dev = word_of_nat devid OR seq e
                \<and> dev_id dev AND SEQ_MASK \<noteq> 0 \<and> \<not> bit (dev_id dev) 31)"
proof -
  let ?devid = "open_slot s"
  let ?old = "slot_seq s ?devid"
  let ?dev = "fst (candidate fx deviceName s)"
  from open_device_success[OF assms(1)]
  have s': "s' = register_device ?devid (fx_fd fx) ?dev (snd (candidate fx deviceName s))"
    by simp
  have len: "?devid < length (mDevicesById (advance_seq ?devid (grow_table ?devid s)))"
    using open_slot_le[of s]
    by (auto simp: advance_seq_def grow_table_def mNumDevicesById_def)
  have e: "mDevicesById s' ! ?devid = \<lparr>device = Some ?dev, seq = next_seq ?old\<rparr>"
    using len seq_after_advance[OF open_slot_le, of s]
    by (simp add: s' register_device_def)
  have d: "drop_bit SEQ_SHIFT (next_seq ?old)
             = (let n = (drop_bit SEQ_SHIFT ?old + 1) AND 0x7FFF in if n = 0 then 1 else n)"
    by (rule next_seq_drop)
  have w: "drop_bit SEQ_SHIFT ?old AND 0x7FFF = 0x7FFF \<longrightarrow> drop_bit SEQ_SHIFT (next_seq ?old) = 1"
    using next_seq_wrap[of ?old] by (auto simp: SEQ_SHIFT_def drop_bit_eq_div)
  have nz: "drop_bit SEQ_SHIFT (next_seq ?old) \<noteq> 0"
    by (simp only: d Let_def) simp
  have hb: "\<not> bit (word_of_nat ?devid OR next_seq ?old :: 32 word) 31"
    using assms(2) open_slot_le[of s] by (intro composite_high_bit) simp
  show ?thesis
    unfolding Let_def e
    using d w nz hb composite_seq_bits[of "word_of_nat ?devid" ?old] next_seq_masked[of ?old]
    by (simp add: s' register_device_def new_id_def Let_def)
qed

theorem open_device_sequence_witness:
  "open_device (fx_touchscreen 10) ''/dev/input/event0'' started_hub
     = (0, snd (open_device (fx_touchscreen 10) ''/dev/input/event0'' started_hub))
   \<and> mNumDevicesById started_hub < 2 ^ 31
   \<and> seq (mDevicesById (snd (open_device (fx_touchscreen 10) ''/dev/input/event0'' started_hub)) ! 0)
       = 0x10000
   \<and> map dev_id (mOpeningDevices (snd (open_device (fx_touchscreen 10) ''/dev/input/event0'' started_hub)))
       = [0x10000]"
proof -
  let ?r = "open_device (fx_touchscreen 10) ''/dev/input/event0'' started_hub"
  have "fst ?r = 0" by code_simp
  then have h1: "?r = (0, snd ?r)" by (simp add: prod_eq_iff)
  have "mNumDevicesById started_hub = 0" by code_simp
  then have h2: "mNumDevicesById started_hub < 2 ^ 31" by simp
  have h3: "open_slot started_hub = 0" by code_simp
  have h4: "slot_seq started_hub 0 = 0" by code_simp
  have h5: "next_seq 0 = 0x10000" by code_simp
  have h6: "mOpeningDevices started_hub = []" by code_simp
  from open_device_sequence[OF h1 h2] show ?thesis
    using h1 h2 by (auto simp add: Let_def h3 h4 h5 h6)
qed

section \<open>The keyboard test\<close>

lemma byte_nonzero_iff: "(w :: 8 word) \<noteq> 0 \<longleftrightarrow> (\<exists>j<8. w AND push_bit j 1 \<noteq> 0)"
proof
  assume "w \<noteq> 0"
  then obtain j where j: "bit w j" by (auto simp: bit_eq_iff)
  then have "j < 8" using bit_imp_le_length[of w j] by simp
  moreover from j have "w AND push_bit j 1 \<noteq> 0"
    by (simp add: push_bit_of_1 and_exp_eq_0_iff_not_bit)
  ultimately show "\<exists>j<8. w AND push_bit j 1 \<noteq> 0" by blast
next
  assume "\<exists>j<8. w AND push_bit j 1 \<noteq> 0"
  then show "w \<noteq> 0" by auto
qed

lemma keys_below_misc_iff:
  "keys_below_misc kb \<longleftrightarrow> (\<exists>b<BTN_MISC. test_bit b kb)"
proof -
  have "keys_below_misc kb \<longleftrightarrow> (\<exists>i<32. kb ! i \<noteq> 0)"
    by (auto simp: keys_below_misc_def list_ex_iff BTN_MISC_def)
  also have "\<dots> \<longleftrightarrow> (\<exists>i<32. \<exists>j<8. kb ! i AND push_bit j 1 \<noteq> 0)"
    using byte_nonzero_iff by blast
  also have "\<dots> \<longleftrightarrow> (\<exists>b<256. kb ! (b div 8) AND push_bit (b mod 8) 1 \<noteq> 0)"
  proof
    assume "\<exists>i<32. \<exists>j<8. kb ! i AND push_bit j 1 \<noteq> 0"
    then obtain i j where ij: "i < 32" "j < 8" "kb ! i AND push_bit j 1 \<noteq> 0" by blast
    then have "8 * i + j < 256" "(8 * i + j) div 8 = i" "(8 * i + j) mod 8 = j" by simp_all
    with ij(3) show "\<exists>b<256. kb ! (b div 8) AND push_bit (b mod 8) 1 \<noteq> 0"
      by (intro exI[of _ "8 * i + j"]) simp
  next
    assume "\<exists>b<256. kb ! (b div 8) AND push_bit (b mod 8) 1 \<noteq> 0"
    then obtain b where b: "b < 256" "kb ! (b div 8) AND push_bit (b mod 8) 1 \<noteq> 0" by blast
    then have "b div 8 < 32" "b mod 8 < 8" by simp_all
    with b(2) show "\<exists>i<32. \<exists>j<8. kb ! i AND push_bit j 1 \<noteq> 0" by blast
  qed
  finally show ?thesis by (simp add: test_bit_def BTN_MISC_def)
qed

lemma no_bits_in_zeros: "b div 8 < n \<Longrightarrow> \<not> test_bit b (replicate n 0)"
  by (simp add: test_bit_def)

lemma classify_keyboard_kbd:
  "classes d = 0 \<Longrightarrow>
   classes (classify_keyboard fx (ioctl_bits ((KEY_MAX + 7) div 8) (fx_key fx)) d) AND CLASS_KEYBOARD \<noteq> 0
     \<longleftrightarrow> (\<exists>b<BTN_MISC. test_bit b (ioctl_bits ((KEY_MAX + 7) div 8) (fx_key fx)))"
proof (cases "fx_key fx")
  case None
  have "\<not> test_bit b (ioctl_bits ((KEY_MAX + 7) div 8) None)" if "b < BTN_MISC" for b
    using that by (simp add: ioctl_bits_def no_bits_in_zeros hub_consts)
  then show ?thesis if "classes d = 0"
    using that None by (auto simp: classify_keyboard_def)
next
  case (Some bs)
  then show ?thesis if "classes d = 0"
    using that by (simp add: classify_keyboard_def keys_below_misc_iff CLASS_KEYBOARD_def)
qed

lemma candidate_keyboard:
  "classes (fst (candidate fx nm s)) AND CLASS_KEYBOARD \<noteq> 0
     \<longleftrightarrow> (\<exists>b<BTN_MISC. test_bit b (ioctl_bits ((KEY_MAX + 7) div 8) (fx_key fx)))"
  using classify_keyboard_kbd[of "new_device_t (allocated s) (new_id s) nm (probe_name fx)" fx]
  by (simp add: candidate_def Let_def new_device_t_def)


lemma classify_keyboard_needs_key:
  "classes d = 0 \<Longrightarrow> fx_key fx = None \<Longrightarrow> classes (classify_keyboard fx kb d) AND CLASS_KEYBOARD = 0"
  by (simp add: classify_keyboard_def)

lemma candidate_kbd_bit:
  "classes (fst (candidate fx nm s)) AND CLASS_KEYBOARD =
   classes (classify_keyboard fx (ioctl_bits ((KEY_MAX + 7) div 8) (fx_key fx))
              (new_device_t (allocated s) (new_id s) nm (probe_name fx))) AND CLASS_KEYBOARD"
  by (simp add: candidate_def Let_def)

lemma open_device_reach:
  assumes "reaches_probe fx s"
  shows "open_device fx nm s =
     (if classes (fst (candidate fx nm s)) AND CLASS_KEYBOARD \<noteq> 0 \<and> fx_oom_keybitmask fx
      then (-1, delete_device (fst (candidate fx nm s)) (probing_hub fx s))
      else if classes (fst (candidate fx nm s)) = 0
      then (-1, delete_device (fst (candidate fx nm s)) (os_close (fx_fd fx) (snd (candidate fx nm s))))
      else (0, register_device (open_slot s) (fx_fd fx) (fst (candidate fx nm s)) (snd (candidate fx nm s))))"
proof -
  let ?d0 = "new_device_t (allocated s) (new_id s) nm (probe_name fx)"
  let ?kb = "ioctl_bits ((KEY_MAX + 7) div 8) (fx_key fx)"
  have o: "open_device fx nm s = probe_device fx (open_slot s) (probe_name fx) ?d0 (probing_hub fx s)"
    using assms by (auto simp add: reaches_probe_def open_device_def Let_def open_slot_def
        mNumDevicesById_def open_device_id probing_hub_def)
  have k: "classes (classify_keyboard fx kb ?d0) AND CLASS_KEYBOARD = 0" if "fx_key fx = None" for kb
    using that by (simp add: new_device_t_def classify_keyboard_def)
  have o0: "obj ?d0 = allocated s" by (simp add: new_device_t_def)
  show ?thesis
    unfolding o probe_device_def Let_def case_prod_beta
    by (cases "fx_key fx") (simp_all add: candidate_def Let_def k delete_device_def o0)
qed

lemma map_device_advance:
  "map device (mDevicesById (advance_seq d (grow_table d s))) =
     map device (mDevicesById s) @ (if mNumDevicesById s \<le> d then [None] else [])"
proof -
  have upd: "map device (xs[d := (xs ! d)\<lparr>seq := q\<rparr>]) = map device xs" for xs q
    by (cases "d < length xs") (simp_all add: map_update list_update_same_conv list_update_beyond)
  show ?thesis
    by (simp add: advance_seq_def grow_table_def upd)
qed

section \<open>Event translation\<close>

lemma sint_scast_32_64: "sint (scast (a :: 32 word) :: 64 word) = sint a"
  by (simp add: sint_up_scast is_up)

lemma when_no_overflow:
  fixes a b :: "32 word"
  shows "sint (s2ns (scast a) + us2ns (scast b)) = sint a * 10 ^ 9 + sint b * 10 ^ 3"
proof -
  have ra: "- (2 ^ 31) \<le> sint a" "sint a < 2 ^ 31"
    using sint_ge[of a] sint_lt[of a] by simp_all
  have rb: "- (2 ^ 31) \<le> sint b" "sint b < 2 ^ 31"
    using sint_ge[of b] sint_lt[of b] by simp_all
  have ma: "sint (s2ns (scast a)) = sint a * 1000000000"
  proof -
    have "- (2 ^ 63) \<le> sint a * 1000000000" "sint a * 1000000000 < 2 ^ 63"
      using ra by simp_all
    then have "signed_take_bit 63 (sint a * 1000000000) = sint a * 1000000000"
      by (simp add: signed_take_bit_int_eq_self)
    then show ?thesis
      by (simp add: s2ns_def sint_word_ariths sint_scast_32_64)
  qed
  have mb: "sint (us2ns (scast b)) = sint b * 1000"
  proof -
    have "- (2 ^ 63) \<le> sint b * 1000" "sint b * 1000 < 2 ^ 63"
      using rb by simp_all
    then have "signed_take_bit 63 (sint b * 1000) = sint b * 1000"
      by (simp add: signed_take_bit_int_eq_self)
    then show ?thesis
      by (simp add: us2ns_def sint_word_ariths sint_scast_32_64)
  qed
  have "- (2 ^ 63) \<le> sint a * 1000000000 + sint b * 1000"
       "sint a * 1000000000 + sint b * 1000 < 2 ^ 63"
    using ra rb by simp_all
  then have "signed_take_bit 63 (sint a * 1000000000 + sint b * 1000)
               = sint a * 1000000000 + sint b * 1000"
    by (simp add: signed_take_bit_int_eq_self)
  then show ?thesis
    by (simp add: sint_word_ariths ma mb)
qed

lemma scan_fds_Some:
  "scan_fds r s is = Inr (Some ev) \<Longrightarrow>
   \<exists>i iev dev. i \<in> set is \<and> reads r i = Some iev \<and> i < length (mDevices s)
      \<and> mDevices s ! i = Some dev \<and> ev = deliver s dev iev"
proof (induction "is")
  case Nil then show ?case by simp
next
  case (Cons i "is")
  then show ?case
    by (auto split: if_splits option.splits)
qed

lemma drain_pending_type:
  "drain_pending s = Inr (Some (ev, s')) \<Longrightarrow> outType ev = DEVICE_ADDED \<or> outType ev = DEVICE_REMOVED"
  by (auto simp: drain_pending_def split: list.splits if_splits)

lemma drain_pending_cases:
  obtains (fault) f where "drain_pending s = Inl f"
    | (pending) e s1 where "drain_pending s = Inr (Some (e, s1))"
    | (idle) "drain_pending s = Inr None"
proof (cases "drain_pending s")
  case (Inl f)
  then show thesis by (rule fault)
next
  case (Inr b)
  then show thesis by (cases b) (auto intro: pending idle)
qed

lemma getEvent_loop_raw:
  assumes "getEvent_loop rs s = Inr (Some ev, s')"
      and "outType ev \<noteq> DEVICE_ADDED" and "outType ev \<noteq> DEVICE_REMOVED"
  shows "\<exists>r i iev dev. r \<in> set rs \<and> 1 \<le> i \<and> i < mFDCount s' \<and> reads r i = Some iev
           \<and> i < length (mDevices s') \<and> mDevices s' ! i = Some dev \<and> ev = deliver s' dev iev"
  using assms
proof (induction rs arbitrary: s)
  case Nil
  then show ?case
    by (auto split: option.splits sum.splits dest: drain_pending_type)
next
  case (Cons r rs)
  show ?case
  proof (cases s rule: drain_pending_cases)
    case fault
    with Cons.prems show ?thesis by simp
  next
    case pending
    with Cons.prems show ?thesis
      by (auto dest: drain_pending_type)
  next
    case idle
    note dp = idle
    show ?thesis
    proof (cases "pollres r \<le> 0")
      case True
      with Cons.prems dp have "getEvent_loop rs s = Inr (Some ev, s')" by simp
      from Cons.IH[OF this Cons.prems(2,3)] show ?thesis by auto
    next
      case False
      note pr = False
      show ?thesis
      proof (cases "scan_fds r s [1 ..< mFDCount s]")
        case (Inl f)
        with Cons.prems dp pr show ?thesis by simp
      next
        case (Inr oe)
        show ?thesis
        proof (cases oe)
          case (Some e)
          with Cons.prems dp pr Inr have eq: "e = ev" "s' = s" by simp_all
          from scan_fds_Some[of r s "[1 ..< mFDCount s]" ev] Inr Some eq
          obtain i iev dev where "i \<in> set [1 ..< mFDCount s]" "reads r i = Some iev"
            "i < length (mDevices s)" "mDevices s ! i = Some dev" "ev = deliver s dev iev"
            by auto
          then show ?thesis using eq by (intro exI[of _ r] exI[of _ i] exI[of _ iev] exI[of _ dev]) auto
        next
          case None
          with Cons.prems dp pr Inr
          have "\<exists>s1. getEvent_loop rs s1 = Inr (Some ev, s')"
            by (auto split: if_splits sum.splits)
          then obtain s1 where "getEvent_loop rs s1 = Inr (Some ev, s')" ..
          from Cons.IH[OF this Cons.prems(2,3)] show ?thesis by auto
        qed
      qed
    qed
  qed
qed

lemma deliver_fields:
  "outType (deliver s dev iev) = ucast (ev_type iev)"
  "outScancode (deliver s dev iev) = ucast (ev_code iev)"
  "outValue (deliver s dev iev) = ev_value iev"
  "outDeviceId (deliver s dev iev) = report_id s dev"
  "outWhen (deliver s dev iev) = s2ns (scast (tv_sec iev)) + us2ns (scast (tv_usec iev))"
  "unat (ev_type iev) = EV_KEY \<Longrightarrow> layout_map (layoutMap dev) (ucast (ev_code iev)) = Some (k, f)
     \<Longrightarrow> outKeycode (deliver s dev iev) = k \<and> outFlags (deliver s dev iev) = f"
  "unat (ev_type iev) = EV_KEY \<Longrightarrow> layout_map (layoutMap dev) (ucast (ev_code iev)) = None
     \<Longrightarrow> outKeycode (deliver s dev iev) = 0 \<and> outFlags (deliver s dev iev) = 0"
  "unat (ev_type iev) \<noteq> EV_KEY
     \<Longrightarrow> outKeycode (deliver s dev iev) = ucast (ev_code iev) \<and> outFlags (deliver s dev iev) = 0"
  by (simp_all add: deliver_def Let_def zero_event_def split: option.splits)

lemma scan_fds_first:
  assumes "\<forall>j\<in>set xs. \<not> (revents r j AND POLLIN \<noteq> 0 \<and> reads r j \<noteq> None)"
      and "revents r i AND POLLIN \<noteq> 0" and "reads r i = Some iev"
      and "i < length (mDevices s)" and "mDevices s ! i = Some dev"
  shows "scan_fds r s (xs @ i # ys) = Inr (Some (deliver s dev iev))"
  using assms by (induction xs) (auto split: option.splits)

lemma getEvent_loop_delivers:
  assumes "drain_pending s = Inr None" and "0 < pollres r"
      and "1 \<le> i" and "i < mFDCount s"
      and "\<forall>j. 1 \<le> j \<and> j < i \<longrightarrow> \<not> (revents r j AND POLLIN \<noteq> 0 \<and> reads r j \<noteq> None)"
      and "revents r i AND POLLIN \<noteq> 0" and "reads r i = Some iev"
      and "i < length (mDevices s)" and "mDevices s ! i = Some dev"
  shows "getEvent_loop (r # rs) s = Inr (Some (deliver s dev iev), s)"
proof -
  have "[1 ..< mFDCount s] = [1 ..< i] @ i # [Suc i ..< mFDCount s]"
    using assms(3,4) by (metis Suc_leI le_add_diff_inverse less_imp_le_nat upt_add_eq_append upt_conv_Cons)
  moreover have "\<forall>j\<in>set [1 ..< i]. \<not> (revents r j AND POLLIN \<noteq> 0 \<and> reads r j \<noteq> None)"
    using assms(5) by auto
  ultimately have "scan_fds r s [1 ..< mFDCount s] = Inr (Some (deliver s dev iev))"
    using scan_fds_first[OF _ assms(6-9)] by simp
  then show ?thesis using assms(1,2) by simp
qed

text \<open>
  C4.  Every event \<^verbatim>\<open>getEvent\<close> returns that is not one of the two synthetic device
  notifications was read from the device at some poll index \<open>i \<ge> 1\<close>: type, scancode
  and value are those read; for \<^verbatim>\<open>EV_KEY\<close> the key code and flags are those of the device's
  layout map, and 0 and 0 when the map has no entry; for every other type the key code
  is the scancode and the flags are 0; and the time stamp is
  \<open>tv_sec * 10^9 + tv_usec * 10^3\<close>, without overflow.  The event is delivered whatever the
  map answers: once the hub is open and nothing is pending, the first index whose read
  succeeds makes the call return the translated event and leaves the hub unchanged.
\<close>

theorem getEvent_translation:
  "(getEvent inotify_fd dir rs s = Inr (Some ev, s')
      \<and> outType ev \<noteq> DEVICE_ADDED \<and> outType ev \<noteq> DEVICE_REMOVED \<longrightarrow>
    (\<exists>r i iev dev.
           r \<in> set rs \<and> 1 \<le> i \<and> i < mFDCount s' \<and> reads r i = Some iev
         \<and> mDevices s' ! i = Some dev
         \<and> outType ev = ucast (ev_type iev)
         \<and> outScancode ev = ucast (ev_code iev)
         \<and> outValue ev = ev_value iev
         \<and> (if unat (ev_type iev) = EV_KEY
            then (case layout_map (layoutMap dev) (ucast (ev_code iev)) of
                    Some (keycode, flags) \<Rightarrow> outKeycode ev = keycode \<and> outFlags ev = flags
                  | None \<Rightarrow> outKeycode ev = 0 \<and> outFlags ev = 0)
            else outKeycode ev = ucast (ev_code iev) \<and> outFlags ev = 0)
         \<and> sint (outWhen ev) = sint (tv_sec iev) * 10 ^ 9 + sint (tv_usec iev) * 10 ^ 3))
 \<and> (mOpened s \<and> drain_pending s = Inr None \<and> 0 < pollres r0 \<and> 1 \<le> i0 \<and> i0 < mFDCount s
      \<and> (\<forall>j. 1 \<le> j \<and> j < i0 \<longrightarrow> \<not> (revents r0 j AND POLLIN \<noteq> 0 \<and> reads r0 j \<noteq> None))
      \<and> revents r0 i0 AND POLLIN \<noteq> 0 \<and> reads r0 i0 = Some iev0
      \<and> i0 < length (mDevices s) \<and> mDevices s ! i0 = Some dev0 \<longrightarrow>
    getEvent inotify_fd dir (r0 # rs) s = Inr (Some (deliver s dev0 iev0), s))"
proof (intro conjI impI)
  assume a: "getEvent inotify_fd dir rs s = Inr (Some ev, s')
      \<and> outType ev \<noteq> DEVICE_ADDED \<and> outType ev \<noteq> DEVICE_REMOVED"
  then obtain s0 where "getEvent_loop rs s0 = Inr (Some ev, s')"
    by (auto simp: getEvent_def)
  from getEvent_loop_raw[OF this] a
  obtain r i iev dev where h: "r \<in> set rs" "1 \<le> i" "i < mFDCount s'" "reads r i = Some iev"
    "mDevices s' ! i = Some dev" "ev = deliver s' dev iev"
    by blast
  have k: "(if unat (ev_type iev) = EV_KEY
            then (case layout_map (layoutMap dev) (ucast (ev_code iev)) of
                    Some (keycode, flags) \<Rightarrow> outKeycode ev = keycode \<and> outFlags ev = flags
                  | None \<Rightarrow> outKeycode ev = 0 \<and> outFlags ev = 0)
            else outKeycode ev = ucast (ev_code iev) \<and> outFlags ev = 0)"
    by (auto simp: h(6) deliver_fields(6,7,8) split: option.splits)
  have w: "sint (outWhen ev) = sint (tv_sec iev) * 10 ^ 9 + sint (tv_usec iev) * 10 ^ 3"
    by (simp only: h(6) deliver_fields(5) when_no_overflow)
  show "\<exists>r i iev dev.
           r \<in> set rs \<and> 1 \<le> i \<and> i < mFDCount s' \<and> reads r i = Some iev
         \<and> mDevices s' ! i = Some dev
         \<and> outType ev = ucast (ev_type iev)
         \<and> outScancode ev = ucast (ev_code iev)
         \<and> outValue ev = ev_value iev
         \<and> (if unat (ev_type iev) = EV_KEY
            then (case layout_map (layoutMap dev) (ucast (ev_code iev)) of
                    Some (keycode, flags) \<Rightarrow> outKeycode ev = keycode \<and> outFlags ev = flags
                  | None \<Rightarrow> outKeycode ev = 0 \<and> outFlags ev = 0)
            else outKeycode ev = ucast (ev_code iev) \<and> outFlags ev = 0)
         \<and> sint (outWhen ev) = sint (tv_sec iev) * 10 ^ 9 + sint (tv_usec iev) * 10 ^ 3"
    using h(1-5) k w by (intro exI[of _ r] exI[of _ i] exI[of _ iev] exI[of _ dev])
      (simp add: h(6) deliver_fields(1-3))
next
  assume b: "mOpened s \<and> drain_pending s = Inr None \<and> 0 < pollres r0 \<and> 1 \<le> i0 \<and> i0 < mFDCount s
      \<and> (\<forall>j. 1 \<le> j \<and> j < i0 \<longrightarrow> \<not> (revents r0 j AND POLLIN \<noteq> 0 \<and> reads r0 j \<noteq> None))
      \<and> revents r0 i0 AND POLLIN \<noteq> 0 \<and> reads r0 i0 = Some iev0
      \<and> i0 < length (mDevices s) \<and> mDevices s ! i0 = Some dev0"
  then have "getEvent_loop (r0 # rs) s = Inr (Some (deliver s dev0 iev0), s)"
    using getEvent_loop_delivers[of s r0 i0 iev0 dev0 rs] by simp
  with b show "getEvent inotify_fd dir (r0 # rs) s = Inr (Some (deliver s dev0 iev0), s)"
    by (simp add: getEvent_def)
qed

theorem getEvent_translation_witness:
  "(\<exists>s'. getEvent 3 None [key_round] booted_hub
           = Inr (Some \<lparr>outDeviceId = 0, outType = 1, outScancode = 30, outKeycode = 29,
                        outFlags = 1, outValue = 1, outWhen = 5000007000\<rparr>, s'))
   \<and> getEvent 3 None [miss_round] booted_hub
       = Inr (Some \<lparr>outDeviceId = 0, outType = 1, outScancode = 31, outKeycode = 0,
                    outFlags = 0, outValue = 1, outWhen = 5000007000\<rparr>, booted_hub)"
proof -
  let ?ev = "\<lparr>outDeviceId = 0, outType = 1, outScancode = 30, outKeycode = 29,
              outFlags = 1, outValue = 1, outWhen = 5000007000\<rparr>"
  let ?g = "getEvent 3 None [key_round] booted_hub"
  have a: "map_sum id fst ?g = Inr (Some ?ev)" by code_simp
  then obtain s' where g: "?g = Inr (Some ?ev, s')"
    by (cases ?g) auto
  have t: "outType ?ev \<noteq> DEVICE_ADDED \<and> outType ?ev \<noteq> DEVICE_REMOVED"
    by (simp add: hub_consts)
  note th = getEvent_translation[where inotify_fd = 3 and dir = None and rs = "[key_round]"
      and s = booted_hub and ev = ?ev and s' = s']
  note th2 = getEvent_translation[where inotify_fd = 3 and dir = None and rs = "[]"
      and s = booted_hub and ?r0.0 = miss_round and ?i0.0 = 1
      and ?iev0.0 = "\<lparr>tv_sec = 5, tv_usec = 7, ev_type = 1, ev_code = 31, ev_value = 1\<rparr>"
      and ?dev0.0 = "the (mDevices booted_hub ! 1)"]
  from th g t have "\<exists>r. r \<in> set [key_round]" by blast
  have p1: "mOpened booted_hub" by code_simp
  have p2: "drain_pending booted_hub = Inr None"
  proof -
    have "mClosingDevices booted_hub = [] \<and> mOpeningDevices booted_hub = []" by code_simp
    then show ?thesis by (simp add: drain_pending_def)
  qed
  have p3: "0 < pollres miss_round" by code_simp
  have p4: "(1::nat) < mFDCount booted_hub" by code_simp
  have p5: "revents miss_round 1 AND POLLIN \<noteq> 0" by code_simp
  have p6: "reads miss_round 1 = Some \<lparr>tv_sec = 5, tv_usec = 7, ev_type = 1, ev_code = 31, ev_value = 1\<rparr>"
    by code_simp
  have p7: "(1::nat) < length (mDevices booted_hub)" by code_simp
  have p8: "mDevices booted_hub ! 1 = Some (the (mDevices booted_hub ! 1))" by code_simp
  have p9: "deliver booted_hub (the (mDevices booted_hub ! 1))
              \<lparr>tv_sec = 5, tv_usec = 7, ev_type = 1, ev_code = 31, ev_value = 1\<rparr>
            = \<lparr>outDeviceId = 0, outType = 1, outScancode = 31, outKeycode = 0,
                    outFlags = 0, outValue = 1, outWhen = 5000007000\<rparr>" by code_simp
  from th2 p1 p2 p3 p4 p5 p6 p7 p8
  have "getEvent 3 None [miss_round] booted_hub
          = Inr (Some (deliver booted_hub (the (mDevices booted_hub ! 1))
              \<lparr>tv_sec = 5, tv_usec = 7, ev_type = 1, ev_code = 31, ev_value = 1\<rparr>), booted_hub)"
    by auto
  with g show ?thesis by (simp only: p9) blast
qed

section \<open>Where the code departs from the claims\<close>

text \<open>
  C5.  Lines 787-788 test whether the \<^verbatim>\<open>SW_HEADPHONE_INSERT\<close> cell is nonzero, not whether
  it holds the id of the device being discovered.  Two headsets are opened in turn: the
  cell holds the id of the first, and the second is marked \<^verbatim>\<open>CLASS_HEADSET\<close> all the same;
  so is a device opened after the headset that reports no switch at all, which is then
  kept although it has no capability of its own.
\<close>

theorem headset_without_claim:
  "mSwitches two_headsets SW_HEADPHONE_INSERT = 0x10000
   \<and> map (\<lambda>d. (path d, dev_id d, classes d)) (mOpeningDevices two_headsets)
       = [(''/dev/input/event1'', 0x10001, CLASS_HEADSET),
          (''/dev/input/event0'', 0x10000, CLASS_HEADSET)]
   \<and> mSwitches plain_after_headset SW_HEADPHONE_INSERT = 0x10000
   \<and> map (\<lambda>d. (path d, dev_id d, classes d)) (mOpeningDevices plain_after_headset)
       = [(''/dev/input/event1'', 0x10001, CLASS_HEADSET),
          (''/dev/input/event0'', 0x10000, CLASS_HEADSET)]"
  by code_simp

text \<open>
  C7.  The loop of lines 918-922 runs to \<^verbatim>\<open>EV_SW\<close> (the event type, 5), not to
  \<^verbatim>\<open>SW_MAX\<close>.  A headset that claimed the cells 2 and 5 is opened and closed: the close
  succeeds, cell 2 is cleared and cell 5 still holds the id of the closed record.
\<close>

theorem switch_cell_survives_close:
  "map_sum id fst (close_device ''/dev/input/event0''
       (snd (open_device (fx_headset 10) ''/dev/input/event0'' started_hub))) = Inr 0
   \<and> map dev_id (mClosingDevices closed_headset) = [0x10000]
   \<and> mSwitches closed_headset SW_HEADPHONE_INSERT = 0
   \<and> mSwitches closed_headset 5 = 0x10000
   \<and> 5 \<le> SW_MAX"
  by code_simp

text \<open>
  C8.  When the identity table cannot grow (lines 647-652) \<^verbatim>\<open>open_device\<close> returns -1
  without closing the descriptor it opened at line 596: the registry is unchanged and
  descriptor 10 stays open.
\<close>

theorem table_oom_leaks_fd:
  "fst (open_device fx_table_oom ''/dev/input/event0'' started_hub) = -1
   \<and> os_open started_hub = [3]
   \<and> os_open (snd (open_device fx_table_oom ''/dev/input/event0'' started_hub)) = [10, 3]
   \<and> mFDs (snd (open_device fx_table_oom ''/dev/input/event0'' started_hub)) = [3]
   \<and> mDevicesById (snd (open_device fx_table_oom ''/dev/input/event0'' started_hub)) = []"
  by code_simp

text \<open>
  C9.  A record enters the poll set at index \<^verbatim>\<open>mFDCount\<close> and the identity table at the
  lowest free slot, and \<^verbatim>\<open>close_device\<close> shifts the poll set down but not the table.
  After two opens, the close of the first device and a third open, the device of
  \<^verbatim>\<open>event1\<close> sits at poll index 1 with descriptor 11 and the device of \<^verbatim>\<open>event2\<close> at index 2
  with descriptor 12, while \<^verbatim>\<open>id_to_index\<close> sends the first to index 2 and the second to
  index 1: each query would address the other device's descriptor.
\<close>

theorem poll_index_mismatch:
  "map (map_option (\<lambda>d. (path d, dev_id d))) (mDevices churned_hub)
     = [None, Some (''/dev/input/event1'', 0x10001), Some (''/dev/input/event2'', 0x20000)]
   \<and> mFDs churned_hub = [3, 11, 12]
   \<and> map (map_option (\<lambda>d. (id_to_index (dev_id d), device_fd churned_hub d))) (mDevices churned_hub)
     = [None, Some (2, Inr 12), Some (1, Inr 11)]
   \<and> map_option path (getDevice churned_hub 0x20000) = Some ''/dev/input/event2''"
  by code_simp

section \<open>The first keyboard\<close>

lemma designate_first_keyboard:
  "mFirstKeyboardId (designate_keyboard b nm i s) =
     (if \<not> mHaveFirstKeyboard s \<and> \<not> b \<and> strstr nm ''-keypad'' then i
      else if mFirstKeyboardId s = 0 then i else mFirstKeyboardId s)"
  "mHaveFirstKeyboard (designate_keyboard b nm i s) =
     (mHaveFirstKeyboard s \<or> (\<not> b \<and> strstr nm ''-keypad''))"
  by (auto simp: designate_keyboard_def)

lemma candidate_first_keyboard:
  "mFirstKeyboardId (snd (candidate fx nm s)) =
     (if classes (fst (candidate fx nm s)) AND CLASS_KEYBOARD \<noteq> 0
      then (if \<not> mHaveFirstKeyboard s \<and> fx_kl_own fx \<noteq> None \<and> strstr (probe_name fx) ''-keypad''
            then new_id s
            else if mFirstKeyboardId s = 0 then new_id s else mFirstKeyboardId s)
      else mFirstKeyboardId s)"
  "mHaveFirstKeyboard (snd (candidate fx nm s)) =
     (if classes (fst (candidate fx nm s)) AND CLASS_KEYBOARD \<noteq> 0
      then mHaveFirstKeyboard s \<or> (fx_kl_own fx \<noteq> None \<and> strstr (probe_name fx) ''-keypad'')
      else mHaveFirstKeyboard s)"
  by (simp_all add: candidate_def classify_device_def Let_def designate_first_keyboard
      new_device_t_def)

lemma open_device_early_result:
  assumes "\<not> reaches_probe fx s"
  shows "open_device fx nm s = (-1, s) \<or>
         open_device fx nm s = (-1, s\<lparr>os_open := fx_fd fx # os_open s\<rparr>) \<or>
         open_device fx nm s
           = (-1, os_close (fx_fd fx) (s\<lparr>os_open := fx_fd fx # os_open s\<rparr>)) \<or>
         open_device fx nm s
           = (-1, advance_seq (open_slot s)
                    (grow_table (open_slot s) (s\<lparr>os_open := fx_fd fx # os_open s\<rparr>))) \<or>
         open_device fx nm s
           = (-1, realloc_fds
                    (advance_seq (open_slot s)
                       (grow_table (open_slot s) (s\<lparr>os_open := fx_fd fx # os_open s\<rparr>))))"
proof -
  let ?s1 = "s\<lparr>os_open := fx_fd fx # os_open s\<rparr>"
  from assms consider
      (nofd) "fx_fd fx < 0"
    | (noversion) "\<not> fx_fd fx < 0" "\<not> fx_version fx"
    | (noid) "\<not> fx_fd fx < 0" "fx_version fx" "\<not> fx_id fx"
    | (excluded) "\<not> fx_fd fx < 0" "fx_version fx" "fx_id fx"
        "probe_name fx \<in> set (mExcludedDevices s)"
    | (oom_table) "\<not> fx_fd fx < 0" "fx_version fx" "fx_id fx"
        "probe_name fx \<notin> set (mExcludedDevices s)"
        "mNumDevicesById s \<le> open_slot s" "fx_oom_devids fx"
    | (oom_poll) "\<not> fx_fd fx < 0" "fx_version fx" "fx_id fx"
        "probe_name fx \<notin> set (mExcludedDevices s)"
        "\<not> (mNumDevicesById s \<le> open_slot s \<and> fx_oom_devids fx)" "fx_oom_fds fx"
    | (oom_record) "\<not> fx_fd fx < 0" "fx_version fx" "fx_id fx"
        "probe_name fx \<notin> set (mExcludedDevices s)"
        "\<not> (mNumDevicesById s \<le> open_slot s \<and> fx_oom_devids fx)" "\<not> fx_oom_fds fx"
        "fx_oom_device fx"
    unfolding reaches_probe_def by (cases "fx_fd fx < 0") auto
  then show ?thesis
  proof cases
    case nofd then show ?thesis by (simp add: open_device_def)
  next
    case noversion then show ?thesis by (simp add: open_device_def)
  next
    case noid then show ?thesis by (simp add: open_device_def)
  next
    case excluded then show ?thesis by (simp add: open_device_def Let_def)
  next
    case oom_table then show ?thesis
      by (simp add: open_device_def Let_def open_slot_def mNumDevicesById_def)
  next
    case oom_poll then show ?thesis
      by (simp add: open_device_def Let_def open_slot_def mNumDevicesById_def)
  next
    case oom_record then show ?thesis
      by (simp add: open_device_def Let_def open_slot_def mNumDevicesById_def)
  qed
qed

lemma open_device_early:
  assumes "\<not> reaches_probe fx s"
  shows "mFirstKeyboardId (snd (open_device fx nm s)) = mFirstKeyboardId s"
    and "mHaveFirstKeyboard (snd (open_device fx nm s)) = mHaveFirstKeyboard s"
    and "fst (open_device fx nm s) = -1"
  using open_device_early_result[OF assms, of nm] by (auto simp: os_close_def)

lemma open_device_first_keyboard:
  "mFirstKeyboardId (snd (open_device fx nm s)) =
     (if fst (open_device fx nm s) = 0 \<and> classes (fst (candidate fx nm s)) AND CLASS_KEYBOARD \<noteq> 0
      then (if \<not> mHaveFirstKeyboard s \<and> fx_kl_own fx \<noteq> None \<and> strstr (probe_name fx) ''-keypad''
            then new_id s
            else if mFirstKeyboardId s = 0 then new_id s else mFirstKeyboardId s)
      else mFirstKeyboardId s)
   \<and> mHaveFirstKeyboard (snd (open_device fx nm s)) =
     (if fst (open_device fx nm s) = 0 \<and> classes (fst (candidate fx nm s)) AND CLASS_KEYBOARD \<noteq> 0
      then mHaveFirstKeyboard s \<or> (fx_kl_own fx \<noteq> None \<and> strstr (probe_name fx) ''-keypad'')
      else mHaveFirstKeyboard s)"
proof (cases "reaches_probe fx s")
  case False
  then show ?thesis by (simp add: open_device_early)
next
  case True
  let ?c = "candidate fx nm s"
  let ?s2 = "advance_seq (open_slot s) (grow_table (open_slot s) (s\<lparr>os_open := fx_fd fx # os_open s\<rparr>))"
  consider (oom) "classes (fst ?c) AND CLASS_KEYBOARD \<noteq> 0" "fx_oom_keybitmask fx"
    | (drop) "\<not> (classes (fst ?c) AND CLASS_KEYBOARD \<noteq> 0 \<and> fx_oom_keybitmask fx)"
             "classes (fst ?c) = 0"
    | (ok) "\<not> (classes (fst ?c) AND CLASS_KEYBOARD \<noteq> 0 \<and> fx_oom_keybitmask fx)"
           "classes (fst ?c) \<noteq> 0"
    by blast
  then show ?thesis
  proof cases
    case oom
    then have "open_device fx nm s = (-1, delete_device (fst ?c) (probing_hub fx s))"
      by (simp add: open_device_reach[OF True])
    then show ?thesis by simp
  next
    case drop
    then have "open_device fx nm s = (-1, delete_device (fst ?c) (os_close (fx_fd fx) (snd ?c)))"
      by (simp add: open_device_reach[OF True])
    moreover from drop(2) have "classes (fst ?c) AND CLASS_KEYBOARD = 0" by simp
    ultimately show ?thesis
      by (simp add: candidate_first_keyboard)
  next
    case ok
    then have "open_device fx nm s = (0, register_device (open_slot s) (fx_fd fx) (fst ?c) (snd ?c))"
      by (simp add: open_device_reach[OF True])
    then show ?thesis
      by (simp add: register_device_def candidate_first_keyboard)
  qed
qed

lemma find_device_Some:
  "find_device devs nm is = Inr (Some (i, d)) \<Longrightarrow> i \<in> set is \<and> devs ! i = Some d \<and> path d = nm"
  by (induction "is") (auto split: if_splits option.splits)

lemma close_device_cases:
  assumes "close_device nm s = Inr (rc, s')"
  shows "(rc = -1 \<and> s' = s) \<or>
         (rc = 0 \<and> (\<exists>i d. i \<in> set [1 ..< mFDCount s] \<and> mDevices s ! i = Some d \<and> path d = nm
                         \<and> close_at i d s = Inr s'))"
proof (cases "find_device (mDevices s) nm [1 ..< mFDCount s]")
  case (Inl f)
  with assms show ?thesis by (simp add: close_device_def)
next
  case (Inr r)
  show ?thesis
  proof (cases r)
    case None
    with Inr assms show ?thesis by (simp add: close_device_def)
  next
    case (Some p)
    obtain i d where p: "p = (i, d)" by (cases p)
    from find_device_Some[of "mDevices s" nm "[1 ..< mFDCount s]" i d] Inr Some p
    have "i \<in> set [1 ..< mFDCount s]" "mDevices s ! i = Some d" "path d = nm" by simp_all
    moreover from assms Inr Some p have "rc = 0" "close_at i d s = Inr s'"
      by (auto simp: close_device_def split: sum.splits)
    ultimately show ?thesis by blast
  qed
qed

lemma close_at_Inr:
  "close_at i d s = Inr s' \<Longrightarrow>
   s' = s\<lparr>mDevicesById := (mDevicesById s)[unat (dev_id d AND ID_MASK) :=
              (mDevicesById s ! unat (dev_id d AND ID_MASK))\<lparr>device := None\<rparr>],
           os_open := removeAll (mFDs s ! i) (os_open s),
           mDevices := take i (mDevices s) @ drop (Suc i) (mDevices s),
           mFDs := take i (mFDs s) @ drop (Suc i) (mFDs s),
           mFDs_rest := Some (last (mFDs s)) # mFDs_rest s,
           mSwitches := release_switches (dev_id d) (mSwitches s),
           mOpeningDevices := relink_opening d (mClosingDevices s) (mOpeningDevices s),
           mClosingDevices := d # mClosingDevices s,
           mFirstKeyboardId := (if dev_id d = mFirstKeyboardId s then 0 else mFirstKeyboardId s)\<rparr>"
  by (simp add: close_at_def Let_def os_close_def split: if_splits)

lemma close_at_fields:
  assumes "close_at i d s = Inr s'"
  shows "mClosingDevices s' = d # mClosingDevices s"
    and "mFirstKeyboardId s' = (if dev_id d = mFirstKeyboardId s then 0 else mFirstKeyboardId s)"
    and "mHaveFirstKeyboard s' = mHaveFirstKeyboard s"
    and "mOpeningDevices s' = relink_opening d (mClosingDevices s) (mOpeningDevices s)"
    and "mDevices s' = take i (mDevices s) @ drop (Suc i) (mDevices s)"
    and "mFDs s' = take i (mFDs s) @ drop (Suc i) (mFDs s)"
    and "mSwitches s' = release_switches (dev_id d) (mSwitches s)"
    and "mDevicesById s' = (mDevicesById s)[unat (dev_id d AND ID_MASK) :=
            (mDevicesById s ! unat (dev_id d AND ID_MASK))\<lparr>device := None\<rparr>]"
    and "mExcludedDevices s' = mExcludedDevices s"
    and "mFDs_rest s' = Some (last (mFDs s)) # mFDs_rest s"
    and "allocated s' = allocated s"
    and "freed s' = freed s"
    and "mOpened s' = mOpened s"
  by (simp_all add: close_at_Inr[OF assms])


text \<open>
  C6, as stated, fails: a designation made by the fallback of lines 823-826 leaves
  \<^verbatim>\<open>mHaveFirstKeyboard\<close> false, and the \<^verbatim>\<open>-keypad\<close> rule of lines 816-821 tests only that
  flag.  A keyboard without a layout of its own is opened and becomes the first keyboard
  (id \<open>0x10000\<close>); a keypad opened after it takes the designation (id \<open>0x10001\<close>) while
  the first device is still open.
\<close>

theorem fallback_designation_replaced:
  "mFirstKeyboardId fallback_keyboard = 0x10000
   \<and> mFirstKeyboardId keypad_after_keyboard = 0x10001
   \<and> map_option path (getDevice keypad_after_keyboard 0x10000) = Some ''/dev/input/event0''
   \<and> map (map_option dev_id) (mDevices keypad_after_keyboard) = [None, Some 0x10000, Some 0x10001]"
  by code_simp

text \<open>
  C6, amended.  Once \<^verbatim>\<open>mFirstKeyboardId\<close> is nonzero and was set by the \<^verbatim>\<open>-keypad\<close> rule
  (\<^verbatim>\<open>mHaveFirstKeyboard\<close>), no \<^verbatim>\<open>open_device\<close> changes it.  A nonzero designation made by
  the fallback is changed by an \<^verbatim>\<open>open_device\<close> only when that call registers a keyboard
  with a layout file of its own whose name contains \<^verbatim>\<open>-keypad\<close>, which then becomes the
  first keyboard for good.  \<^verbatim>\<open>close_device\<close> changes the designation only by clearing it,
  when it closes the record that carries the designated id.
\<close>

theorem first_keyboard_designation:
  "(mFirstKeyboardId s \<noteq> 0 \<and> mHaveFirstKeyboard s \<longrightarrow>
      mFirstKeyboardId (snd (open_device fx deviceName s)) = mFirstKeyboardId s
      \<and> mHaveFirstKeyboard (snd (open_device fx deviceName s)))
 \<and> (mFirstKeyboardId s \<noteq> 0
      \<and> mFirstKeyboardId (snd (open_device fx deviceName s)) \<noteq> mFirstKeyboardId s \<longrightarrow>
      \<not> mHaveFirstKeyboard s \<and> fx_kl_own fx \<noteq> None \<and> strstr (probe_name fx) ''-keypad''
      \<and> fst (open_device fx deviceName s) = 0
      \<and> classes (fst (candidate fx deviceName s)) AND CLASS_KEYBOARD \<noteq> 0
      \<and> mFirstKeyboardId (snd (open_device fx deviceName s)) = new_id s
      \<and> mHaveFirstKeyboard (snd (open_device fx deviceName s)))
 \<and> (close_device deviceName s = Inr (rc, s') \<and> mFirstKeyboardId s' \<noteq> mFirstKeyboardId s \<longrightarrow>
      rc = 0 \<and> mFirstKeyboardId s' = 0
      \<and> (\<exists>d. mClosingDevices s' = d # mClosingDevices s \<and> dev_id d = mFirstKeyboardId s
              \<and> path d = deviceName))"
proof -
  have p1: "mFirstKeyboardId (snd (open_device fx deviceName s)) = mFirstKeyboardId s
      \<and> mHaveFirstKeyboard (snd (open_device fx deviceName s))"
    if "mFirstKeyboardId s \<noteq> 0 \<and> mHaveFirstKeyboard s"
    using that by (simp add: open_device_first_keyboard)
  have p2: "\<not> mHaveFirstKeyboard s \<and> fx_kl_own fx \<noteq> None \<and> strstr (probe_name fx) ''-keypad''
      \<and> fst (open_device fx deviceName s) = 0
      \<and> classes (fst (candidate fx deviceName s)) AND CLASS_KEYBOARD \<noteq> 0
      \<and> mFirstKeyboardId (snd (open_device fx deviceName s)) = new_id s
      \<and> mHaveFirstKeyboard (snd (open_device fx deviceName s))"
    if a: "mFirstKeyboardId s \<noteq> 0
      \<and> mFirstKeyboardId (snd (open_device fx deviceName s)) \<noteq> mFirstKeyboardId s"
  proof -
    note fk = open_device_first_keyboard[of fx deviceName s]
    from a fk have b: "fst (open_device fx deviceName s) = 0"
      "classes (fst (candidate fx deviceName s)) AND CLASS_KEYBOARD \<noteq> 0"
      by (auto split: if_splits)
    with a fk have c: "\<not> mHaveFirstKeyboard s \<and> fx_kl_own fx \<noteq> None
      \<and> strstr (probe_name fx) ''-keypad''"
      by (auto split: if_splits)
    with b fk show ?thesis by simp
  qed
  have p3: "rc = 0 \<and> mFirstKeyboardId s' = 0
      \<and> (\<exists>d. mClosingDevices s' = d # mClosingDevices s \<and> dev_id d = mFirstKeyboardId s
              \<and> path d = deviceName)"
    if a: "close_device deviceName s = Inr (rc, s') \<and> mFirstKeyboardId s' \<noteq> mFirstKeyboardId s"
  proof -
    from close_device_cases[of deviceName s rc s'] a
    obtain i d where d: "rc = 0" "path d = deviceName" "close_at i d s = Inr s'"
      by auto
    from close_at_fields(1,2)[OF d(3)] a d(1,2) show ?thesis
      by (auto split: if_splits)
  qed
  from p1 p2 p3 show ?thesis by blast
qed

theorem first_keyboard_designation_witness:
  "mFirstKeyboardId keypad_first = 0x10000 \<and> mHaveFirstKeyboard keypad_first
   \<and> mFirstKeyboardId (snd (open_device (fx_keyboard 11) ''/dev/input/event1'' keypad_first)) = 0x10000
   \<and> mFirstKeyboardId fallback_keyboard = 0x10000 \<and> \<not> mHaveFirstKeyboard fallback_keyboard
   \<and> mFirstKeyboardId keypad_after_keyboard = 0x10001 \<and> mHaveFirstKeyboard keypad_after_keyboard
   \<and> (\<exists>s'. close_device ''/dev/input/event0'' keypad_first = Inr (0, s') \<and> mFirstKeyboardId s' = 0)"
proof -
  have k1: "mFirstKeyboardId keypad_first = 0x10000" "mHaveFirstKeyboard keypad_first"
    by code_simp+
  note t1 = first_keyboard_designation[where s = keypad_first and fx = "fx_keyboard 11"
      and deviceName = "''/dev/input/event1''"]
  from t1 k1 have r1:
    "mFirstKeyboardId (snd (open_device (fx_keyboard 11) ''/dev/input/event1'' keypad_first)) = 0x10000"
    by simp
  have k2: "mFirstKeyboardId fallback_keyboard = 0x10000"
    "mFirstKeyboardId (snd (open_device (fx_keypad 11) ''/dev/input/event1'' fallback_keyboard)) = 0x10001"
    by code_simp+
  note t2 = first_keyboard_designation[where s = fallback_keyboard and fx = "fx_keypad 11"
      and deviceName = "''/dev/input/event1''"]
  from t2 k2 have r2: "\<not> mHaveFirstKeyboard fallback_keyboard"
    "mHaveFirstKeyboard (snd (open_device (fx_keypad 11) ''/dev/input/event1'' fallback_keyboard))"
    by simp_all
  have "map_sum id fst (close_device ''/dev/input/event0'' keypad_first) = Inr 0"
    "map_sum id (mFirstKeyboardId \<circ> snd) (close_device ''/dev/input/event0'' keypad_first) = Inr 0"
    by code_simp+
  then obtain s' where k3: "close_device ''/dev/input/event0'' keypad_first = Inr (0, s')"
      "mFirstKeyboardId s' = 0"
    by (cases "close_device ''/dev/input/event0'' keypad_first") auto
  note t3 = first_keyboard_designation[where s = keypad_first and deviceName = "''/dev/input/event0''"
      and rc = 0 and s' = s']
  from t3 k3 k1 have "\<exists>d. mClosingDevices s' = d # mClosingDevices keypad_first" by auto
  with k1 r1 k2 r2 k3 show ?thesis
    by (auto simp: keypad_after_keyboard_def)
qed

section \<open>Lookup\<close>

lemma sint_slot: "sint (x AND ID_MASK) = int (unat (x AND ID_MASK))"
proof -
  have "uint (x AND ID_MASK) \<le> uint ID_MASK"
    using word_and_le1[of x ID_MASK] by (simp add: word_le_def)
  then have "uint (x AND ID_MASK) < 2 ^ 31" by (simp add: ID_MASK_def)
  moreover have "- (2 ^ 31) \<le> uint (x AND ID_MASK)"
    by (rule order_trans[of _ 0]) simp_all
  ultimately have "signed_take_bit 31 (uint (x AND ID_MASK)) = uint (x AND ID_MASK)"
    by (intro signed_take_bit_int_eq_self)
  then show ?thesis by (simp add: sint_uint)
qed

lemma getDevice_eq:
  "getDevice s deviceId =
     (let eff = (if deviceId = 0 then mFirstKeyboardId s else deviceId);
          slot = unat (eff AND ID_MASK)
      in if slot < mNumDevicesById s
         then (case device (mDevicesById s ! slot) of
                 None \<Rightarrow> None
               | Some dev \<Rightarrow> if dev_id dev = eff then Some dev else None)
         else None)"
proof -
  have "int n \<le> sint (x AND ID_MASK) \<or> sint (x AND ID_MASK) < 0 \<longleftrightarrow> \<not> unat (x AND ID_MASK) < n"
    for n x
  proof -
    have "int n \<le> int (unat (x AND ID_MASK)) \<or> int (unat (x AND ID_MASK)) < 0
            \<longleftrightarrow> \<not> unat (x AND ID_MASK) < n"
      by (simp only: of_nat_le_iff of_nat_less_0_iff) auto
    then show ?thesis by (simp only: sint_slot)
  qed
  moreover have "nat (sint (x AND ID_MASK)) = unat (x AND ID_MASK)" for x
    by (simp only: sint_slot nat_int)
  ultimately show ?thesis
    by (simp only: getDevice_def Let_def) (simp split: option.splits)
qed

lemma getDevice_Some_iff:
  "getDevice s deviceId = Some d \<longleftrightarrow>
     (let eff = (if deviceId = 0 then mFirstKeyboardId s else deviceId);
          slot = unat (eff AND ID_MASK)
      in slot < mNumDevicesById s \<and> device (mDevicesById s ! slot) = Some d \<and> dev_id d = eff)"
  by (auto simp: getDevice_eq Let_def split: option.splits)

section \<open>Reachable states\<close>

lemma open_device_outcome:
  "(fst (open_device fx nm s) = -1
      \<and> mDevices (snd (open_device fx nm s)) = mDevices s
      \<and> mFDs (snd (open_device fx nm s)) = mFDs s
      \<and> mOpeningDevices (snd (open_device fx nm s)) = mOpeningDevices s
      \<and> mClosingDevices (snd (open_device fx nm s)) = mClosingDevices s)
   \<or> (fst (open_device fx nm s) = 0 \<and> classes (fst (candidate fx nm s)) \<noteq> 0
      \<and> snd (open_device fx nm s)
          = register_device (open_slot s) (fx_fd fx) (fst (candidate fx nm s)) (snd (candidate fx nm s)))"
proof (cases "reaches_probe fx s")
  case False
  from open_device_early_result[OF this, of nm] show ?thesis
    by (auto simp: os_close_def)
next
  case True
  let ?c = "candidate fx nm s"
  consider (oom) "classes (fst ?c) AND CLASS_KEYBOARD \<noteq> 0" "fx_oom_keybitmask fx"
    | (drop) "\<not> (classes (fst ?c) AND CLASS_KEYBOARD \<noteq> 0 \<and> fx_oom_keybitmask fx)"
             "classes (fst ?c) = 0"
    | (ok) "\<not> (classes (fst ?c) AND CLASS_KEYBOARD \<noteq> 0 \<and> fx_oom_keybitmask fx)"
           "classes (fst ?c) \<noteq> 0"
    by blast
  then show ?thesis
  proof cases
    case oom
    then show ?thesis by (simp add: open_device_reach[OF True])
  next
    case drop
    then show ?thesis by (simp add: open_device_reach[OF True])
  next
    case ok
    then show ?thesis by (simp add: open_device_reach[OF True])
  qed
qed

lemma candidate_keyboard_record: "keyboard_record (fst (candidate fx nm s))"
proof -
  let ?kb = "ioctl_bits ((KEY_MAX + 7) div 8) (fx_key fx)"
  let ?d0 = "new_device_t (allocated s) (new_id s) nm (probe_name fx)"
  let ?d1 = "classify_keyboard fx ?kb ?d0"
  have k: "classes ?d1 AND CLASS_KEYBOARD = 0" if "fx_key fx = None"
    using that by (simp add: classify_keyboard_def new_device_t_def)
  have bm: "keyBitmask (fst (candidate fx nm s))
              = (if classes ?d1 AND CLASS_KEYBOARD \<noteq> 0 then Some ?kb else None)"
    using k by (auto simp: candidate_def Let_def cache_key_bitmask_def new_device_t_def)
  have cl: "classes (fst (candidate fx nm s)) AND CLASS_KEYBOARD = classes ?d1 AND CLASS_KEYBOARD"
    by (simp add: candidate_def Let_def)
  have lm: "layoutMap (fst (candidate fx nm s)) = new_KeyLayoutMap"
    if "classes ?d1 AND CLASS_KEYBOARD = 0"
    using that by (simp add: candidate_def Let_def classify_device_layout new_device_t_def)
  show ?thesis
    unfolding keyboard_record_def using bm cl lm by auto
qed

lemma poll_inv_open: "poll_inv s \<Longrightarrow> poll_inv (snd (open_device fx nm s))"
  using open_device_outcome[of fx nm s] candidate_keyboard_record[of fx nm s]
  by (auto simp: poll_inv_def register_device_def)

lemma poll_inv_close:
  assumes "poll_inv s" and "close_device nm s = Inr (rc, s')"
  shows "poll_inv s'"
proof -
  from close_device_cases[OF assms(2)] show ?thesis
  proof
    assume "rc = -1 \<and> s' = s" with assms(1) show ?thesis by simp
  next
    assume "rc = 0 \<and> (\<exists>i d. i \<in> set [1 ..< mFDCount s] \<and> mDevices s ! i = Some d \<and> path d = nm
                         \<and> close_at i d s = Inr s')"
    then obtain i d where c: "close_at i d s = Inr s'" by blast
    have "set (take i xs @ drop (Suc i) xs) \<subseteq> set xs" for xs :: "device_t option list"
      using set_take_subset[of i xs] set_drop_subset[of "Suc i" xs] by auto
    with assms(1) show ?thesis
      by (auto simp: poll_inv_def close_at_fields(5,6)[OF c])
  qed
qed

lemma drain_pending_fields:
  assumes "drain_pending s = Inr (Some (ev, s'))"
  shows "mDevices s' = mDevices s" and "mFDs s' = mFDs s" and "mDevicesById s' = mDevicesById s"
    and "mOpened s' = mOpened s" and "mExcludedDevices s' = mExcludedDevices s"
    and "mNumDevicesById s' = mNumDevicesById s"
  using assms
  by (auto simp: drain_pending_def mNumDevicesById_def split: list.splits if_splits)

lemma poll_inv_drain: "poll_inv s \<Longrightarrow> drain_pending s = Inr (Some (ev, s')) \<Longrightarrow> poll_inv s'"
  by (simp add: poll_inv_def drain_pending_fields)

lemma reachable_poll_inv: "reachable s \<Longrightarrow> poll_inv s"
proof (induction rule: reachable.induct)
  case reach_new
  show ?case by (simp add: poll_inv_def new_EventHub_def)
next
  case (reach_exclude s n)
  then show ?case by (simp add: poll_inv_def addExcludedDevice_def)
next
  case (reach_platform s inotify_fd)
  show ?case by (simp add: poll_inv_def openPlatformInput_def)
next
  case (reach_opened s)
  then show ?case by (simp add: poll_inv_def)
next
  case (reach_open s fx deviceName)
  then show ?case by (simp add: poll_inv_open)
next
  case (reach_close s deviceName rc s')
  then show ?case by (simp add: poll_inv_close)
next
  case (reach_drain s ev s')
  then show ?case by (simp add: poll_inv_drain)
qed

lemma run_ops_reachable: "reachable s \<Longrightarrow> run_ops ops s = Inr s' \<Longrightarrow> reachable s'"
proof (induction ops arbitrary: s)
  case Nil then show ?case by simp
next
  case (Cons op ops)
  show ?case
  proof (cases op)
    case (Open fx nm)
    with Cons.prems have "run_ops ops (snd (open_device fx nm s)) = Inr s'" by simp
    with Cons.IH[OF reach_open[OF Cons.prems(1)]] show ?thesis by blast
  next
    case (Close nm)
    with Cons.prems obtain rc s1 where c: "close_device nm s = Inr (rc, s1)" "run_ops ops s1 = Inr s'"
      by (auto split: sum.splits)
    from Cons.IH[OF reach_close[OF Cons.prems(1) c(1)] c(2)] show ?thesis .
  qed
qed

lemma read_notify_events_reachable:
  "reachable s \<Longrightarrow> read_notify_events es s = Inr s' \<Longrightarrow> reachable s'"
proof (induction es arbitrary: s)
  case Nil then show ?case by simp
next
  case (Cons e es)
  show ?case
  proof (cases "in_name e = []")
    case True with Cons show ?thesis by simp
  next
    case False
    show ?thesis
    proof (cases "in_create e")
      case True
      with False Cons.prems
      have "read_notify_events es
              (snd (open_device (in_fixture e) (device_path @ ''/'' @ in_name e) s)) = Inr s'"
        by simp
      with Cons.IH[OF reach_open[OF Cons.prems(1)]] show ?thesis by blast
    next
      case c: False
      with False Cons.prems obtain rc s1 where
        d: "close_device (device_path @ ''/'' @ in_name e) s = Inr (rc, s1)"
           "read_notify_events es s1 = Inr s'"
        by (auto split: sum.splits)
      from Cons.IH[OF reach_close[OF Cons.prems(1) d(1)] d(2)] show ?thesis .
    qed
  qed
qed

lemma scan_dir_reachable: "reachable s \<Longrightarrow> reachable (scan_dir des s)"
proof (induction des arbitrary: s)
  case Nil then show ?case by simp
next
  case (Cons e des)
  obtain d_name fx where e: "e = (d_name, fx)" by (cases e)
  show ?case
    using Cons.IH[OF Cons.prems] Cons.IH[OF reach_open[OF Cons.prems]]
    by (simp add: e)
qed

lemma openPlatformInput_reachable:
  assumes "reachable s" and "\<not> mOpened s"
  shows "reachable (openPlatformInput inotify_fd dir s)"
proof (cases dir)
  case None
  with reach_platform[OF assms] show ?thesis by simp
next
  case (Some des)
  from scan_dir_reachable[OF reach_platform[OF assms, of inotify_fd], of des] Some
  show ?thesis by (simp add: openPlatformInput_def)
qed

lemma getEvent_loop_reachable:
  "reachable s \<Longrightarrow> getEvent_loop rs s = Inr (ev, s') \<Longrightarrow> reachable s'"
proof (induction rs arbitrary: s)
  case Nil
  then show ?case
    by (cases s rule: drain_pending_cases) (auto intro: reach_drain)
next
  case (Cons r rs)
  show ?case
  proof (cases s rule: drain_pending_cases)
    case fault
    with Cons.prems show ?thesis by simp
  next
    case pending
    with Cons.prems show ?thesis by (auto intro: reach_drain)
  next
    case idle
    with Cons.prems have
      "getEvent_loop rs s = Inr (ev, s') \<or> s' = s
       \<or> (\<exists>s1. read_notify (notify r) s = Inr s1 \<and> getEvent_loop rs s1 = Inr (ev, s'))"
      by (auto split: if_splits sum.splits option.splits)
    then show ?thesis
    proof (elim disjE exE conjE)
      assume "getEvent_loop rs s = Inr (ev, s')"
      from Cons.IH[OF Cons.prems(1) this] show ?thesis .
    next
      assume "s' = s" with Cons.prems(1) show ?thesis by simp
    next
      fix s1 assume a: "read_notify (notify r) s = Inr s1" "getEvent_loop rs s1 = Inr (ev, s')"
      from a(1) Cons.prems(1) have "reachable s1"
        by (auto simp: read_notify_def split: option.splits intro: read_notify_events_reachable)
      from Cons.IH[OF this a(2)] show ?thesis .
    qed
  qed
qed

lemma getEvent_reachable:
  assumes "reachable s" and "getEvent inotify_fd dir rs s = Inr (ev, s')"
  shows "reachable s'"
proof (cases "mOpened s")
  case True
  with assms show ?thesis by (simp add: getEvent_def getEvent_loop_reachable)
next
  case False
  from reach_opened[OF openPlatformInput_reachable[OF assms(1) False]]
  have "reachable ((openPlatformInput inotify_fd dir s)\<lparr>mError := NO_ERROR, mOpened := True\<rparr>)" .
  from getEvent_loop_reachable[OF this] assms(2) False show ?thesis
    by (simp add: getEvent_def)
qed

lemma getEvent_opened:
  assumes "getEvent inotify_fd dir rs s = Inr (ev, s')"
  shows "mOpened s'"
proof -
  have op: "mOpened (snd (open_device fx nm h)) = mOpened h" for fx nm h
    using open_device_early_result[of fx h nm] open_device_reach[of fx h nm]
    by (cases "reaches_probe fx h") (auto simp: register_device_def)
  have cl: "mOpened h'" if "mOpened h" "close_device nm h = Inr (rc, h')" for nm h rc h'
    using close_device_cases[OF that(2)] that(1) by (auto simp: close_at_fields)
  have rn: "mOpened h'" if "mOpened h" "read_notify_events es h = Inr h'" for es h h'
    using that
  proof (induction es arbitrary: h)
    case Nil then show ?case by simp
  next
    case (Cons e es)
    let ?nm = "device_path @ ''/'' @ in_name e"
    from Cons.prems(2) consider
        (skip) "read_notify_events es h = Inr h'"
      | (create) "read_notify_events es (snd (open_device (in_fixture e) ?nm h)) = Inr h'"
      | (delete) rc h1 where "close_device ?nm h = Inr (rc, h1)" "read_notify_events es h1 = Inr h'"
      by (auto split: if_splits sum.splits)
    then show ?case
    proof cases
      case skip
      from Cons.IH[OF Cons.prems(1) this] show ?thesis .
    next
      case create
      from Cons.IH[OF _ this] Cons.prems(1) show ?thesis by (simp add: op)
    next
      case delete
      from Cons.IH[OF cl[OF Cons.prems(1) delete(1)] delete(2)] show ?thesis .
    qed
  qed
  have lp: "mOpened h'" if "mOpened h" "getEvent_loop rs h = Inr (ev, h')" for h h'
    using that
  proof (induction rs arbitrary: h)
    case Nil
    then show ?case
      by (cases h rule: drain_pending_cases) (auto simp: drain_pending_fields)
  next
    case (Cons r rs)
    show ?case
    proof (cases h rule: drain_pending_cases)
      case fault
      with Cons.prems show ?thesis by simp
    next
      case pending
      with Cons.prems show ?thesis by (auto simp: drain_pending_fields)
    next
      case idle
      with Cons.prems have
        "getEvent_loop rs h = Inr (ev, h') \<or> h' = h
         \<or> (\<exists>s1. read_notify (notify r) h = Inr s1 \<and> getEvent_loop rs s1 = Inr (ev, h'))"
        by (auto split: if_splits sum.splits option.splits)
      then show ?thesis
      proof (elim disjE exE conjE)
        assume "getEvent_loop rs h = Inr (ev, h')"
        from Cons.IH[OF Cons.prems(1) this] show ?thesis .
      next
        assume "h' = h" with Cons.prems(1) show ?thesis by simp
      next
        fix s1 assume a: "read_notify (notify r) h = Inr s1" "getEvent_loop rs s1 = Inr (ev, h')"
        from a(1) Cons.prems(1) have "mOpened s1"
          by (auto simp: read_notify_def split: option.splits intro: rn)
        from Cons.IH[OF this a(2)] show ?thesis .
      qed
    qed
  qed
  show ?thesis
  proof (cases "mOpened s")
    case True
    with assms lp[of s] show ?thesis by (simp add: getEvent_def)
  next
    case False
    with assms
      lp[of "(openPlatformInput inotify_fd dir s)\<lparr>mError := NO_ERROR, mOpened := True\<rparr>"]
    show ?thesis by (simp add: getEvent_def)
  qed
qed

section \<open>The bit tests of hasKeys\<close>

lemma test_scancodes_no_null:
  "bm \<noteq> None \<or> scs = [] \<Longrightarrow> test_scancodes bm scs \<noteq> Inl NullPointer"
  by (induction scs) (auto split: option.splits)

lemma findScancodes_new [simp]: "findScancodes new_KeyLayoutMap keycode = []"
  by (simp add: findScancodes_def new_KeyLayoutMap_def)

lemma find_assign_contract: "empty_map_finds_nothing find_assign"
  by (simp add: empty_map_finds_nothing_def find_assign_def)

lemma find_append_loaded_contract: "empty_map_finds_nothing find_append_loaded"
  by (simp add: empty_map_finds_nothing_def find_append_loaded_def hub_consts)

lemma hasKeys_devices_no_null:
  assumes "\<forall>d. Some d \<in> set devs \<longrightarrow> keyboard_record d"
    and "empty_map_finds_nothing lookup"
  shows "hasKeys_devices lookup devs keycode scanCodes ns \<noteq> Inl NullPointer"
proof (induction ns arbitrary: scanCodes)
  case Nil show ?case by simp
next
  case (Cons n ns)
  show ?case
  proof (cases "length devs \<le> n")
    case True then show ?thesis by simp
  next
    case False
    show ?thesis
    proof (cases "devs ! n")
      case None with False Cons show ?thesis by simp
    next
      case (Some d)
      obtain err scanCodes' where l: "lookup (layoutMap d) keycode scanCodes = (err, scanCodes')"
        by (cases "lookup (layoutMap d) keycode scanCodes")
      from Some False have "Some d \<in> set devs" by (metis not_le nth_mem)
      with assms(1) have k: "keyboard_record d" by blast
      show ?thesis
      proof (cases "err = NO_ERROR")
        case False
        with \<open>\<not> length devs \<le> n\<close> Some l Cons[of scanCodes'] show ?thesis by simp
      next
        case True
        have "keyBitmask d \<noteq> None \<or> scanCodes' = []"
        proof (cases "keyBitmask d")
          case None
          with k have "layoutMap d = new_KeyLayoutMap" by (simp add: keyboard_record_def)
          with l True have "fst (lookup new_KeyLayoutMap keycode scanCodes) = NO_ERROR"
            "snd (lookup new_KeyLayoutMap keycode scanCodes) = scanCodes'" by simp_all
          with assms(2) have "scanCodes' = []"
            unfolding empty_map_finds_nothing_def by metis
          then show ?thesis by simp
        next
          case (Some b) then show ?thesis by simp
        qed
        then have "test_scancodes (keyBitmask d) scanCodes' \<noteq> Inl NullPointer"
          by (rule test_scancodes_no_null)
        with \<open>\<not> length devs \<le> n\<close> Some l True Cons[of scanCodes'] show ?thesis
          by (auto split: sum.splits bool.splits)
      qed
    qed
  qed
qed

lemma hasKeys_no_null:
  assumes "poll_inv s" and "empty_map_finds_nothing lookup"
  shows "hasKeys lookup s keyCodes \<noteq> Inl NullPointer"
proof (induction keyCodes)
  case Nil show ?case by simp
next
  case (Cons k ks)
  from assms have "hasKeys_devices lookup (mDevices s) k [] [0 ..< mFDCount s] \<noteq> Inl NullPointer"
    by (intro hasKeys_devices_no_null) (simp_all add: poll_inv_def)
  with Cons show ?case by (auto split: sum.splits)
qed

lemma plugged_hub_reachable: "reachable plugged_hub \<and> mOpened plugged_hub"
proof -
  have "\<not> isl (getEvent 3 (Some [(''event0'', fx_keypad 10)]) [] new_EventHub)" by code_simp
  then obtain ev0 where b: "getEvent 3 (Some [(''event0'', fx_keypad 10)]) [] new_EventHub = Inr (ev0, booted_hub)"
    by (cases "getEvent 3 (Some [(''event0'', fx_keypad 10)]) [] new_EventHub")
       (auto simp: booted_hub_def)
  from getEvent_reachable[OF reach_new b] have r: "reachable booted_hub" .
  have "\<not> isl (getEvent 3 None [plug_round] booted_hub)" by code_simp
  then obtain ev1 where p: "getEvent 3 None [plug_round] booted_hub = Inr (ev1, plugged_hub)"
    by (cases "getEvent 3 None [plug_round] booted_hub") (auto simp: plugged_hub_def)
  from getEvent_reachable[OF r p] getEvent_opened[OF p] show ?thesis by simp
qed

text \<open>
  With a helper that adds to the vector and reports no error for a map without entries,
  the scancode the keypad's map gave for key code 29 is still in the vector when the
  touch screen is visited, and the test reads the touch screen's null bitmask.
\<close>

lemma hasKeys_appending_helper:
  "hasKeys find_append plugged_hub [29] = Inl NullPointer
   \<and> hasKeys find_assign plugged_hub [29] = Inr [0]
   \<and> hasKeys find_append_loaded plugged_hub [29] = Inr [0]"
  by code_simp

text \<open>
  C10.  In every reachable state, and for every \<^verbatim>\<open>findScancodes\<close> that leaves the vector
  empty when it succeeds on a map without entries, no bit test of \<^verbatim>\<open>hasKeys\<close> meets a null
  key bitmask: a record in the poll set has no cached bitmask exactly when it is not
  classified \<^verbatim>\<open>CLASS_KEYBOARD\<close>, and such a record still has the empty layout map of its
  constructor, which reverse-maps no key code to any scancode.
\<close>

theorem hasKeys_reads_bitmask:
  assumes "reachable s" and "empty_map_finds_nothing lookup"
  shows "hasKeys lookup s keyCodes \<noteq> Inl NullPointer
       \<and> (\<forall>n d. n < mFDCount s \<and> mDevices s ! n = Some d \<longrightarrow>
             (keyBitmask d = None) = (classes d AND CLASS_KEYBOARD = 0)
           \<and> (keyBitmask d = None \<longrightarrow>
                 layoutMap d = new_KeyLayoutMap
               \<and> (\<forall>keycode. findScancodes (layoutMap d) keycode = [])))"
proof -
  from assms(1) have inv: "poll_inv s" by (rule reachable_poll_inv)
  have "keyboard_record d" if "n < mFDCount s" "mDevices s ! n = Some d" for n d
  proof -
    from that inv have "n < length (mDevices s)" by (simp add: poll_inv_def mFDCount_def)
    with that(2) have "Some d \<in> set (mDevices s)" by (metis nth_mem)
    with inv show ?thesis by (simp add: poll_inv_def)
  qed
  then have "\<forall>n d. n < mFDCount s \<and> mDevices s ! n = Some d \<longrightarrow>
             (keyBitmask d = None) = (classes d AND CLASS_KEYBOARD = 0)
           \<and> (keyBitmask d = None \<longrightarrow>
                 layoutMap d = new_KeyLayoutMap
               \<and> (\<forall>keycode. findScancodes (layoutMap d) keycode = []))"
    by (auto simp: keyboard_record_def)
  with hasKeys_no_null[OF inv assms(2)] show ?thesis by blast
qed

theorem hasKeys_reads_bitmask_witness:
  "reachable plugged_hub \<and> mOpened plugged_hub
   \<and> empty_map_finds_nothing find_assign \<and> empty_map_finds_nothing find_append_loaded
   \<and> hasKeys find_assign plugged_hub [kKeyCodeQ, 29, kKeyCodeDpadUp] \<noteq> Inl NullPointer
   \<and> hasKeys find_assign plugged_hub [kKeyCodeQ, 29, kKeyCodeDpadUp] = Inr [1, 0, 0]
   \<and> hasKeys find_append_loaded plugged_hub [kKeyCodeQ, 29, kKeyCodeDpadUp] \<noteq> Inl NullPointer
   \<and> hasKeys find_append_loaded plugged_hub [kKeyCodeQ, 29, kKeyCodeDpadUp] = Inr [1, 0, 0]
   \<and> map (map_option (\<lambda>d. (classes d, keyBitmask d = None, layoutMap d = []))) (mDevices plugged_hub)
       = [None, Some (CLASS_KEYBOARD OR CLASS_ALPHAKEY, False, False),
          Some (CLASS_TOUCHSCREEN OR CLASS_TOUCHSCREEN_MT, True, True)]"
proof -
  note r = plugged_hub_reachable
  from r have r1: "reachable plugged_hub" by simp
  from hasKeys_reads_bitmask[OF r1 find_assign_contract, of "[kKeyCodeQ, 29, kKeyCodeDpadUp]"]
  have a: "hasKeys find_assign plugged_hub [kKeyCodeQ, 29, kKeyCodeDpadUp] \<noteq> Inl NullPointer"
    by blast
  from hasKeys_reads_bitmask[OF r1 find_append_loaded_contract, of "[kKeyCodeQ, 29, kKeyCodeDpadUp]"]
  have b: "hasKeys find_append_loaded plugged_hub [kKeyCodeQ, 29, kKeyCodeDpadUp] \<noteq> Inl NullPointer"
    by blast
  have c: "hasKeys find_assign plugged_hub [kKeyCodeQ, 29, kKeyCodeDpadUp] = Inr [1, 0, 0]"
    "hasKeys find_append_loaded plugged_hub [kKeyCodeQ, 29, kKeyCodeDpadUp] = Inr [1, 0, 0]"
    by code_simp+
  have d: "map (map_option (\<lambda>d. (classes d, keyBitmask d = None, layoutMap d = []))) (mDevices plugged_hub)
       = [None, Some (CLASS_KEYBOARD OR CLASS_ALPHAKEY, False, False),
          Some (CLASS_TOUCHSCREEN OR CLASS_TOUCHSCREEN_MT, True, True)]" by code_simp
  from r a b c d find_assign_contract find_append_loaded_contract show ?thesis by simp
qed

section \<open>The identity table over a run\<close>

lemma drop_masked: "drop_bit 16 (q AND 0x7fff0000 :: 32 word) = drop_bit 16 q AND 0x7fff"
proof -
  have m3: "drop_bit 16 (0x7fff0000 :: 32 word) = 0x7fff" by (simp add: drop_bit_eq_div)
  show ?thesis by (simp only: drop_bit_and m3)
qed

lemma masked_counter_bound:
  assumes "(k :: 32 word) AND 0x7fff = k"
  shows "unat k < 32768"
proof -
  have m2: "(0x7fff :: 32 word) = mask 15" by (simp add: mask_eq_exp_minus_1)
  from assms have "take_bit 15 k = k" by (simp only: m2 take_bit_eq_mask)
  then have "unat k = take_bit 15 (unat k)" by (simp only: unsigned_take_bit_eq[symmetric])
  also have "\<dots> < 2 ^ 15" by (rule take_bit_nat_less_exp)
  finally show ?thesis by simp
qed

lemma unat_masked_incr: "unat (((k :: 32 word) + 1) AND 0x7fff) = (unat k + 1) mod 32768"
proof -
  have m2: "(0x7fff :: 32 word) = mask 15" by (simp add: mask_eq_exp_minus_1)
  have u: "unat (k + 1) = take_bit 32 (Suc (unat k))"
    by (simp add: unat_word_ariths take_bit_eq_mod)
  have "unat (take_bit 15 (k + 1)) = take_bit 15 (take_bit 32 (Suc (unat k)))"
    by (simp only: unsigned_take_bit_eq u)
  also have "\<dots> = take_bit 15 (Suc (unat k))" by simp
  also have "\<dots> = (unat k + 1) mod 32768" by (simp add: take_bit_eq_mod)
  finally show ?thesis by (simp only: m2 take_bit_eq_mask)
qed

lemma next_seq_neq:
  assumes "q AND SEQ_MASK = q"
  shows "next_seq q \<noteq> q"
proof
  assume e: "next_seq q = q"
  let ?k = "drop_bit 16 q"
  from assms have "q AND 0x7fff0000 = q" by (simp only: SEQ_MASK_def)
  with drop_masked[of q] have km: "?k AND 0x7fff = ?k" by simp
  from km have kb: "unat ?k < 32768" by (rule masked_counter_bound)
  from next_seq_drop[of q] e
  have d: "?k = (let n = (?k + 1) AND 0x7fff in if n = 0 then 1 else n)"
    by (simp only: SEQ_SHIFT_def)
  show False
  proof (cases "(?k + 1) AND 0x7fff = 0")
    case True
    with d have "?k = 1" by (simp add: Let_def)
    with True show False by simp
  next
    case False
    with d have "?k = (?k + 1) AND 0x7fff" by (simp add: Let_def)
    then have "unat ?k = unat ((?k + 1) AND 0x7fff)" by simp
    then have "unat ?k = (unat ?k + 1) mod 32768" by (simp only: unat_masked_incr)
    with kb show False by (cases "unat ?k + 1 = 32768") simp_all
  qed
qed


lemma slot_word:
  assumes "i < 2 ^ 16"
  shows "(word_of_nat i :: 32 word) AND ID_MASK = word_of_nat i"
    and "(word_of_nat i :: 32 word) AND SEQ_MASK = 0"
    and "unat (word_of_nat i :: 32 word) = i"
proof -
  have m: "ID_MASK = mask 16" by (simp add: ID_MASK_def mask_eq_exp_minus_1)
  have "take_bit 16 (word_of_nat i :: 32 word) = word_of_nat (take_bit 16 i)"
    by (simp only: take_bit_of_nat)
  also have "take_bit 16 i = i" using assms by (simp add: take_bit_nat_eq_self)
  finally show b: "(word_of_nat i :: 32 word) AND ID_MASK = word_of_nat i"
    by (simp only: m take_bit_eq_mask)
  have "(word_of_nat i :: 32 word) AND SEQ_MASK = (word_of_nat i AND ID_MASK) AND SEQ_MASK"
    by (simp only: b)
  also have "\<dots> = 0" by (simp add: and.assoc hub_consts)
  finally show "(word_of_nat i :: 32 word) AND SEQ_MASK = 0" .
  have "i < 2 ^ LENGTH(32)" using assms by simp
  then have "take_bit LENGTH(32) i = i" by (simp only: take_bit_nat_eq_self)
  then show "unat (word_of_nat i :: 32 word) = i" by (simp add: unsigned_of_nat)
qed

lemma composite_parts:
  assumes "i < 2 ^ 16" and "q AND SEQ_MASK = q"
  shows "(word_of_nat i OR q) AND SEQ_MASK = q"
    and "unat ((word_of_nat i OR q) AND ID_MASK) = i"
proof -
  show "(word_of_nat i OR q) AND SEQ_MASK = q"
    by (simp only: bit.conj_disj_distrib2 slot_word(2)[OF assms(1)] assms(2)) simp
  have "q AND ID_MASK = (q AND SEQ_MASK) AND ID_MASK" by (simp only: assms(2))
  also have "\<dots> = 0" by (simp add: and.assoc hub_consts)
  finally have "q AND ID_MASK = 0" .
  then have "(word_of_nat i OR q) AND ID_MASK = word_of_nat i"
    by (simp only: bit.conj_disj_distrib2 slot_word(1)[OF assms(1)]) simp
  then show "unat ((word_of_nat i OR q) AND ID_MASK) = i"
    by (simp only: slot_word(3)[OF assms(1)])
qed


lemma seq_tableD:
  assumes "seq_table T" and "i < length T"
  shows "seq (T ! i) AND SEQ_MASK = seq (T ! i)"
    and "device (T ! i) = Some d \<Longrightarrow> seq (T ! i) \<noteq> 0"
    and "device (T ! i) = Some d \<Longrightarrow> dev_id d = word_of_nat i OR seq (T ! i)"
  using assms by (simp_all add: seq_table_def)

lemma seq_table_slot:
  assumes "seq_table T" and "i < length T" and "length T \<le> 2 ^ 16"
    and "device (T ! i) = Some d"
  shows "unat (dev_id d AND ID_MASK) = i" and "dev_id d AND SEQ_MASK = seq (T ! i)"
    and "dev_id d \<noteq> 0"
proof -
  have i: "i < 2 ^ 16" using assms(2,3) by simp
  note q = seq_tableD[OF assms(1,2)]
  show "unat (dev_id d AND ID_MASK) = i"
    by (simp only: q(3)[OF assms(4)] composite_parts(2)[OF i q(1)])
  show m: "dev_id d AND SEQ_MASK = seq (T ! i)"
    by (simp only: q(3)[OF assms(4)] composite_parts(1)[OF i q(1)])
  show "dev_id d \<noteq> 0"
  proof
    assume "dev_id d = 0"
    with m have "seq (T ! i) = 0" by simp
    with q(2)[OF assms(4)] show False by simp
  qed
qed

lemma seq_table_release:
  assumes "seq_table T"
  shows "seq_table (T[i := (T ! i)\<lparr>device := None\<rparr>])"
  unfolding seq_table_def
proof (intro allI impI)
  fix j assume "j < length (T[i := (T ! i)\<lparr>device := None\<rparr>])"
  then have j: "j < length T" by simp
  show "seq (T[i := (T ! i)\<lparr>device := None\<rparr>] ! j) AND SEQ_MASK
          = seq (T[i := (T ! i)\<lparr>device := None\<rparr>] ! j)
        \<and> (\<forall>d. device (T[i := (T ! i)\<lparr>device := None\<rparr>] ! j) = Some d \<longrightarrow>
               seq (T[i := (T ! i)\<lparr>device := None\<rparr>] ! j) \<noteq> 0
               \<and> dev_id d = word_of_nat j OR seq (T[i := (T ! i)\<lparr>device := None\<rparr>] ! j))"
    using seq_tableD[OF assms j] j by (cases "j = i") simp_all
qed

lemma seq_table_assign:
  assumes "seq_table T" and "i < length T" and "seq (T ! i) \<noteq> 0"
    and "dev_id d = word_of_nat i OR seq (T ! i)"
  shows "seq_table (T[i := (T ! i)\<lparr>device := Some d\<rparr>])"
  unfolding seq_table_def
proof (intro allI impI)
  fix j assume "j < length (T[i := (T ! i)\<lparr>device := Some d\<rparr>])"
  then have j: "j < length T" by simp
  show "seq (T[i := (T ! i)\<lparr>device := Some d\<rparr>] ! j) AND SEQ_MASK
          = seq (T[i := (T ! i)\<lparr>device := Some d\<rparr>] ! j)
        \<and> (\<forall>d'. device (T[i := (T ! i)\<lparr>device := Some d\<rparr>] ! j) = Some d' \<longrightarrow>
               seq (T[i := (T ! i)\<lparr>device := Some d\<rparr>] ! j) \<noteq> 0
               \<and> dev_id d' = word_of_nat j OR seq (T[i := (T ! i)\<lparr>device := Some d\<rparr>] ! j))"
    using seq_tableD[OF assms(1) j] j assms(3,4) by (cases "j = i") simp_all
qed

lemma advanced_table:
  fixes s :: EventHub
  defines "T' \<equiv> mDevicesById (advance_seq (open_slot s) (grow_table (open_slot s) s))"
  shows "length T' = (if open_slot s = mNumDevicesById s then Suc (mNumDevicesById s)
                      else mNumDevicesById s)"
    and "open_slot s < length T'"
    and "device (T' ! open_slot s) = None"
    and "seq (T' ! open_slot s) = next_seq (slot_seq s (open_slot s))"
    and "i < length T' \<Longrightarrow> i \<noteq> open_slot s \<Longrightarrow> i < mNumDevicesById s \<and> T' ! i = mDevicesById s ! i"
    and "i < mNumDevicesById s \<Longrightarrow> i \<noteq> open_slot s \<Longrightarrow> T' ! i = mDevicesById s ! i"
    and "i < mNumDevicesById s \<Longrightarrow> device (mDevicesById s ! i) = Some d \<Longrightarrow> i \<noteq> open_slot s"
proof -
  have le: "open_slot s \<le> mNumDevicesById s" by (rule open_slot_le)
  show l: "length T' = (if open_slot s = mNumDevicesById s then Suc (mNumDevicesById s)
                      else mNumDevicesById s)"
    using le by (auto simp: T'_def advance_seq_def grow_table_def mNumDevicesById_def)
  show lt: "open_slot s < length T'" using l le by auto
  have fr: "device (mDevicesById s ! open_slot s) = None" if "open_slot s < mNumDevicesById s"
    using free_slot_free[of "mDevicesById s" 0] that
    by (simp add: open_slot_def mNumDevicesById_def)
  show "device (T' ! open_slot s) = None"
    using le fr
    by (auto simp: T'_def advance_seq_def grow_table_def mNumDevicesById_def nth_append)
  show "seq (T' ! open_slot s) = next_seq (slot_seq s (open_slot s))"
    unfolding T'_def by (rule seq_after_advance[OF le])
  show "i < mNumDevicesById s \<and> T' ! i = mDevicesById s ! i"
    if "i < length T'" "i \<noteq> open_slot s"
    using that le l
    by (auto simp: T'_def advance_seq_def grow_table_def mNumDevicesById_def nth_append
        split: if_splits)
  show "T' ! i = mDevicesById s ! i" if "i < mNumDevicesById s" "i \<noteq> open_slot s"
    using that
    by (auto simp: T'_def advance_seq_def grow_table_def mNumDevicesById_def nth_append)
  show "i \<noteq> open_slot s" if "i < mNumDevicesById s" "device (mDevicesById s ! i) = Some d"
    using that fr by auto
qed

lemma seq_table_advance:
  assumes "seq_table (mDevicesById s)"
  shows "seq_table (mDevicesById (advance_seq (open_slot s) (grow_table (open_slot s) s)))"
proof -
  let ?T' = "mDevicesById (advance_seq (open_slot s) (grow_table (open_slot s) s))"
  have "seq (?T' ! i) AND SEQ_MASK = seq (?T' ! i) \<and>
        (\<forall>d. device (?T' ! i) = Some d \<longrightarrow>
              seq (?T' ! i) \<noteq> 0 \<and> dev_id d = word_of_nat i OR seq (?T' ! i))"
    if i: "i < length ?T'" for i
  proof (cases "i = open_slot s")
    case True
    then show ?thesis
      by (simp add: advanced_table(3,4) next_seq_masked)
  next
    case False
    from advanced_table(5)[OF i False] assms show ?thesis
      by (simp add: seq_table_def mNumDevicesById_def)
  qed
  then show ?thesis by (simp add: seq_table_def)
qed

lemma table_inv_advance:
  assumes "table_inv s"
    and "mDevicesById s' = mDevicesById (advance_seq (open_slot s) (grow_table (open_slot s) s))"
    and "mDevices s' = mDevices s"
  shows "table_inv s'"
proof -
  let ?T' = "mDevicesById (advance_seq (open_slot s) (grow_table (open_slot s) s))"
  have "\<exists>i<length ?T'. device (?T' ! i) = Some d" if "Some d \<in> set (mDevices s)" for d
  proof -
    from assms(1) that obtain i where i: "i < mNumDevicesById s" "device (mDevicesById s ! i) = Some d"
      by (auto simp: table_inv_def mNumDevicesById_def)
    from advanced_table(7)[OF i] have ne: "i \<noteq> open_slot s" .
    from advanced_table(6)[OF i(1) ne] have "?T' ! i = mDevicesById s ! i" .
    moreover have "i < length ?T'" using i(1) advanced_table(1)[of s] by (simp split: if_splits)
    ultimately show ?thesis using i(2) by auto
  qed
  with assms seq_table_advance[of s] show ?thesis by (simp add: table_inv_def)
qed

lemma table_inv_register:
  assumes "table_inv s"
    and "s' = register_device (open_slot s) fd (fst (candidate fx nm s)) (snd (candidate fx nm s))"
    and "mNumDevicesById s' \<le> 2 ^ 16"
  shows "table_inv s'"
proof -
  let ?k = "open_slot s"
  let ?T' = "mDevicesById (advance_seq ?k (grow_table ?k s))"
  let ?c = "fst (candidate fx nm s)"
  have T: "mDevicesById s' = ?T'[?k := (?T' ! ?k)\<lparr>device := Some ?c\<rparr>]"
    and D: "mDevices s' = mDevices s @ [Some ?c]"
    by (simp_all add: assms(2) register_device_def)
  have id: "dev_id ?c = word_of_nat ?k OR seq (?T' ! ?k)"
    by (simp add: new_id_def advanced_table(4))
  have nz: "seq (?T' ! ?k) \<noteq> 0" by (simp add: advanced_table(4) next_seq_nonzero)
  from assms(1) have st: "seq_table (mDevicesById s)" by (simp add: table_inv_def)
  have a: "seq_table (mDevicesById s')"
    unfolding T
    by (rule seq_table_assign[OF seq_table_advance[OF st] advanced_table(2) nz id])
  have old: "\<exists>i<length ?T'. i \<noteq> ?k \<and> device (?T' ! i) = Some d" if "Some d \<in> set (mDevices s)" for d
  proof -
    from assms(1) that obtain i where i: "i < mNumDevicesById s" "device (mDevicesById s ! i) = Some d"
      by (auto simp: table_inv_def mNumDevicesById_def)
    from advanced_table(7)[OF i] have ne: "i \<noteq> open_slot s" .
    from advanced_table(6)[OF i(1) ne] have "?T' ! i = mDevicesById s ! i" .
    moreover have "i < length ?T'" using i(1) advanced_table(1)[of s] by (simp split: if_splits)
    ultimately show ?thesis using i(2) ne by auto
  qed
  have new: "Some ?c \<notin> set (mDevices s)"
  proof
    assume "Some ?c \<in> set (mDevices s)"
    from old[OF this] obtain i where i: "i < length ?T'" "i \<noteq> ?k" "device (?T' ! i) = Some ?c"
      by blast
    from seq_tableD(1,3)[OF seq_table_advance[OF st] i(1)] i(3)
    have "dev_id ?c = word_of_nat i OR seq (?T' ! i)" "seq (?T' ! i) AND SEQ_MASK = seq (?T' ! i)"
      by simp_all
    moreover have "i < 2 ^ 16" "?k < 2 ^ 16"
      using i(1) advanced_table(2)[of s] assms(3) by (simp_all add: T mNumDevicesById_def)
    moreover note id seq_tableD(1)[OF seq_table_advance[OF st] advanced_table(2)]
    ultimately have "i = ?k"
      using composite_parts(2)[of i "seq (?T' ! i)"] composite_parts(2)[of ?k "seq (?T' ! ?k)"]
      by simp
    with i(2) show False by simp
  qed
  from assms(1) have "distinct (mDevices s)" by (simp add: table_inv_def)
  with new have b: "distinct (mDevices s')" by (simp add: D)
  have c: "\<exists>i<length (mDevicesById s'). device (mDevicesById s' ! i) = Some d"
    if "Some d \<in> set (mDevices s')" for d
  proof (cases "d = ?c")
    case True
    then show ?thesis using advanced_table(2)[of s] by (auto simp: T)
  next
    case False
    with that have "Some d \<in> set (mDevices s)" by (simp add: D)
    from old[OF this] show ?thesis by (auto simp: T)
  qed
  from a b c show ?thesis by (simp add: table_inv_def)
qed


lemma table_inv_fields:
  assumes "table_inv s" and "mDevicesById s' = mDevicesById s" and "mDevices s' = mDevices s"
  shows "table_inv s'"
  using assms by (simp add: table_inv_def)

lemma open_device_table:
  "(mDevicesById (snd (open_device fx nm s)) = mDevicesById s
      \<and> mDevices (snd (open_device fx nm s)) = mDevices s)
   \<or> (mDevicesById (snd (open_device fx nm s))
        = mDevicesById (advance_seq (open_slot s) (grow_table (open_slot s) s))
      \<and> mDevices (snd (open_device fx nm s)) = mDevices s)
   \<or> snd (open_device fx nm s)
        = register_device (open_slot s) (fx_fd fx) (fst (candidate fx nm s)) (snd (candidate fx nm s))"
proof (cases "reaches_probe fx s")
  case False
  have g: "mDevicesById (advance_seq k (grow_table k (s\<lparr>os_open := x\<rparr>)))
             = mDevicesById (advance_seq k (grow_table k s))" for k x
    by (simp add: advance_seq_def grow_table_def mNumDevicesById_def)
  from open_device_early_result[OF False, of nm] show ?thesis
    by (auto simp: os_close_def g)
next
  case True
  have g: "mDevicesById (advance_seq k (grow_table k (s\<lparr>os_open := x\<rparr>)))
             = mDevicesById (advance_seq k (grow_table k s))" for k x
    by (simp add: advance_seq_def grow_table_def mNumDevicesById_def)
  show ?thesis
    by (simp add: open_device_reach[OF True] os_close_def g)
qed

lemma table_inv_open:
  assumes "table_inv s" and "mNumDevicesById (snd (open_device fx nm s)) \<le> 2 ^ 16"
  shows "table_inv (snd (open_device fx nm s))"
  using open_device_table[of fx nm s]
proof (elim disjE conjE)
  assume "mDevicesById (snd (open_device fx nm s)) = mDevicesById s"
    "mDevices (snd (open_device fx nm s)) = mDevices s"
  then show ?thesis by (rule table_inv_fields[OF assms(1)])
next
  assume "mDevicesById (snd (open_device fx nm s))
        = mDevicesById (advance_seq (open_slot s) (grow_table (open_slot s) s))"
    "mDevices (snd (open_device fx nm s)) = mDevices s"
  then show ?thesis by (rule table_inv_advance[OF assms(1)])
next
  assume "snd (open_device fx nm s)
        = register_device (open_slot s) (fx_fd fx) (fst (candidate fx nm s)) (snd (candidate fx nm s))"
  from table_inv_register[OF assms(1) this assms(2)] show ?thesis .
qed

lemma open_device_table_grows:
  "mNumDevicesById s \<le> mNumDevicesById (snd (open_device fx nm s))"
  using open_device_table[of fx nm s] advanced_table(1)[of s]
  by (auto simp: mNumDevicesById_def register_device_def split: if_splits)

lemma table_inv_close_at:
  assumes "table_inv s" and "close_at j d s = Inr s'" and "j < length (mDevices s)"
    and "mDevices s ! j = Some d" and "mNumDevicesById s \<le> 2 ^ 16"
  shows "table_inv s'"
    and "\<exists>i<mNumDevicesById s. device (mDevicesById s ! i) = Some d
            \<and> unat (dev_id d AND ID_MASK) = i
            \<and> mDevicesById s' = (mDevicesById s)[i := (mDevicesById s ! i)\<lparr>device := None\<rparr>]"
proof -
  let ?T = "mDevicesById s"
  let ?k = "unat (dev_id d AND ID_MASK)"
  from assms(1) have st: "seq_table ?T" and di: "distinct (mDevices s)"
    and li: "\<And>d. Some d \<in> set (mDevices s) \<Longrightarrow> \<exists>i<length ?T. device (?T ! i) = Some d"
    by (simp_all add: table_inv_def)
  have len: "length ?T \<le> 2 ^ 16" using assms(5) by (simp add: mNumDevicesById_def)
  have dm: "Some d \<in> set (mDevices s)" using assms(3,4) by (metis nth_mem)
  from li[OF dm] obtain i where i: "i < length ?T" "device (?T ! i) = Some d" by blast
  from seq_table_slot(1)[OF st i(1) len i(2)] have k: "?k = i" .
  have T': "mDevicesById s' = ?T[?k := (?T ! ?k)\<lparr>device := None\<rparr>]"
    and D': "mDevices s' = take j (mDevices s) @ drop (Suc j) (mDevices s)"
    using close_at_fields(5,8)[OF assms(2)] by simp_all
  show "\<exists>i<mNumDevicesById s. device (mDevicesById s ! i) = Some d
            \<and> unat (dev_id d AND ID_MASK) = i
            \<and> mDevicesById s' = (mDevicesById s)[i := (mDevicesById s ! i)\<lparr>device := None\<rparr>]"
    using i k T' by (auto simp: mNumDevicesById_def)
  have a: "seq_table (mDevicesById s')" unfolding T' by (rule seq_table_release[OF st])
  have id: "mDevices s = take j (mDevices s) @ Some d # drop (Suc j) (mDevices s)"
    using assms(3,4) by (metis id_take_nth_drop)
  have b: "distinct (mDevices s')" and nd: "Some d \<notin> set (mDevices s')"
    using di distinct_append[of "take j (mDevices s)" "Some d # drop (Suc j) (mDevices s)"] id
    unfolding D' by auto
  have sub: "set (mDevices s') \<subseteq> set (mDevices s)"
    unfolding D' using set_take_subset[of j "mDevices s"] set_drop_subset[of "Suc j" "mDevices s"]
    by auto
  have c: "\<exists>i<length (mDevicesById s'). device (mDevicesById s' ! i) = Some d'"
    if "Some d' \<in> set (mDevices s')" for d'
  proof -
    from that sub have "Some d' \<in> set (mDevices s)" by auto
    from li[OF this] obtain i' where i': "i' < length ?T" "device (?T ! i') = Some d'" by blast
    have "d' \<noteq> d" using that nd by auto
    with i' i(2) have "i' \<noteq> i" by auto
    with i' k show ?thesis by (auto simp: T')
  qed
  from a b c show "table_inv s'" by (simp add: table_inv_def)
qed

lemma table_inv_close:
  assumes "table_inv s" and "poll_inv s" and "close_device nm s = Inr (rc, s')"
    and "mNumDevicesById s \<le> 2 ^ 16"
  shows "table_inv s'" and "mNumDevicesById s' = mNumDevicesById s"
proof -
  from close_device_cases[OF assms(3)]
  have "table_inv s' \<and> mNumDevicesById s' = mNumDevicesById s"
  proof
    assume "rc = -1 \<and> s' = s" with assms(1) show ?thesis by simp
  next
    assume "rc = 0 \<and> (\<exists>i d. i \<in> set [1 ..< mFDCount s] \<and> mDevices s ! i = Some d \<and> path d = nm
                         \<and> close_at i d s = Inr s')"
    then obtain j d where c: "j \<in> set [1 ..< mFDCount s]" "mDevices s ! j = Some d"
      "close_at j d s = Inr s'" by blast
    from c(1) assms(2) have j: "j < length (mDevices s)" by (simp add: poll_inv_def mFDCount_def)
    from table_inv_close_at[OF assms(1) c(3) j c(2) assms(4)] close_at_fields(8)[OF c(3)]
    show ?thesis by (simp add: mNumDevicesById_def)
  qed
  then show "table_inv s'" and "mNumDevicesById s' = mNumDevicesById s" by simp_all
qed

lemma reachable_table_inv:
  "reachable s \<Longrightarrow> mNumDevicesById s \<le> 2 ^ 16 \<Longrightarrow> table_inv s"
proof (induction rule: reachable.induct)
  case reach_new
  show ?case
    by (simp add: table_inv_def seq_table_def new_EventHub_def)
next
  case (reach_exclude s n)
  then show ?case by (simp add: table_inv_def addExcludedDevice_def mNumDevicesById_def)
next
  case (reach_platform s inotify_fd)
  then show ?case by (simp add: table_inv_def openPlatformInput_def mNumDevicesById_def)
next
  case (reach_opened s)
  then show ?case by (simp add: table_inv_def mNumDevicesById_def)
next
  case (reach_open s fx deviceName)
  from reach_open.prems open_device_table_grows[of s fx deviceName]
  have "mNumDevicesById s \<le> 2 ^ 16" by simp
  from table_inv_open[OF reach_open.IH[OF this] reach_open.prems] show ?case .
next
  case (reach_close s deviceName rc s')
  show ?case
  proof (cases "rc = -1 \<and> s' = s")
    case True
    with reach_close show ?thesis by simp
  next
    case False
    with close_device_cases[OF reach_close.hyps(2)] obtain j d where
      c: "close_at j d s = Inr s'" by blast
    from close_at_fields(8)[OF c] reach_close.prems
    have n: "mNumDevicesById s \<le> 2 ^ 16" by (simp add: mNumDevicesById_def)
    from table_inv_close(1)[OF reach_close.IH[OF n] reachable_poll_inv[OF reach_close.hyps(1)]
        reach_close.hyps(2) n]
    show ?thesis .
  qed
next
  case (reach_drain s ev s')
  note f = drain_pending_fields[OF reach_drain.hyps(2)]
  with reach_drain show ?case by (simp add: table_inv_def)
qed

section \<open>The period of the sequence\<close>

text \<open>The sequence lives in bits 16 to 30 and skips 0: from a nonzero value inside
  \<^verbatim>\<open>SEQ_MASK\<close>, \<open>k\<close> steps lead back to it exactly when 32767 divides \<open>k\<close>.\<close>

lemma mod_shift_iff:
  assumes "(a::nat) < m"
  shows "((a + k) mod m = a) = (m dvd k)"
proof -
  have "((a + k) mod m = a mod m) = (m dvd (a + k - a))"
    by (rule mod_eq_dvd_iff_nat) simp
  with assms show ?thesis by simp
qed

lemma masked_eq_iff:
  assumes "(p :: 32 word) AND SEQ_MASK = p" and "q AND SEQ_MASK = q"
  shows "p = q \<longleftrightarrow> unat (drop_bit 16 p) = unat (drop_bit 16 q)"
proof
  assume "unat (drop_bit 16 p) = unat (drop_bit 16 q)"
  then have d: "drop_bit 16 p = drop_bit 16 q" by (simp only: word_unat_eq_iff)
  have z: "take_bit 16 x = 0" if "x AND SEQ_MASK = x" for x :: "32 word"
  proof -
    have "take_bit 16 (x AND SEQ_MASK) = 0"
      by (simp add: take_bit_eq_mask and.assoc mask_eq_exp_minus_1 hub_consts)
    with that show ?thesis by simp
  qed
  have "push_bit 16 (drop_bit 16 p) + take_bit 16 p = p"
    "push_bit 16 (drop_bit 16 q) + take_bit 16 q = q"
    by (rule bits_ident)+
  with d z[OF assms(1)] z[OF assms(2)] show "p = q" by simp
qed simp

lemma seq_count_bounds:
  assumes "(q :: 32 word) AND SEQ_MASK = q" and "q \<noteq> 0"
  shows "1 \<le> unat (drop_bit 16 q)" and "unat (drop_bit 16 q) \<le> 32767"
proof -
  let ?k = "drop_bit 16 q"
  from assms(1) have m: "q AND 0x7fff0000 = q" by (simp only: SEQ_MASK_def)
  with drop_masked[of q] have km: "?k AND 0x7fff = ?k" by simp
  from km have "unat ?k < 32768" by (rule masked_counter_bound)
  then show "unat ?k \<le> 32767" by simp
  have "?k \<noteq> 0"
  proof
    assume "?k = 0"
    with m have "drop_bit 16 (q AND 0x7fff0000) = 0" by simp
    then have "q AND 0x7fff0000 = 0" by (simp only: masked_zero_iff[symmetric])
    with m assms(2) show False by simp
  qed
  then have "unat ?k \<noteq> 0" by (simp only: unat_eq_0 not_False_eq_True)
  then show "1 \<le> unat ?k" by simp
qed

lemma seq_count_next:
  assumes "(q :: 32 word) AND SEQ_MASK = q" and "q \<noteq> 0"
  shows "unat (drop_bit 16 (next_seq q)) = unat (drop_bit 16 q) mod 32767 + 1"
proof -
  let ?k = "drop_bit 16 q"
  note b = seq_count_bounds[OF assms]
  have n: "unat ((?k + 1) AND 0x7fff) = (unat ?k + 1) mod 32768" by (rule unat_masked_incr)
  from next_seq_drop[of q]
  have d: "drop_bit 16 (next_seq q) = (let n = (?k + 1) AND 0x7fff in if n = 0 then 1 else n)"
    by (simp only: SEQ_SHIFT_def)
  show ?thesis
  proof (cases "unat ?k = 32767")
    case True
    with n have "unat ((?k + 1) AND 0x7fff) = 0" by simp
    then have "(?k + 1) AND 0x7fff = 0" by (simp only: unat_eq_0)
    with d have "drop_bit 16 (next_seq q) = 1" by (simp add: Let_def)
    with True show ?thesis by simp
  next
    case False
    with b have lt: "unat ?k + 1 < 32768" "unat ?k < 32767" by simp_all
    with n have u: "unat ((?k + 1) AND 0x7fff) = unat ?k + 1" by simp
    then have "(?k + 1) AND 0x7fff \<noteq> 0" by (metis Suc_eq_plus1 nat.distinct(1) unat_0)
    with d have "drop_bit 16 (next_seq q) = (?k + 1) AND 0x7fff" by (simp add: Let_def)
    with u lt show ?thesis by simp
  qed
qed

lemma next_seq_iterate_masked:
  assumes "(q :: 32 word) AND SEQ_MASK = q" and "q \<noteq> 0"
  shows "(next_seq ^^ k) q AND SEQ_MASK = (next_seq ^^ k) q \<and> (next_seq ^^ k) q \<noteq> 0"
  using assms by (cases k) (simp_all add: next_seq_masked next_seq_nonzero)

lemma seq_count_iterate:
  assumes "(q :: 32 word) AND SEQ_MASK = q" and "q \<noteq> 0"
  shows "unat (drop_bit 16 ((next_seq ^^ k) q)) = (unat (drop_bit 16 q) - 1 + k) mod 32767 + 1"
proof (induction k)
  case 0
  from seq_count_bounds[OF assms] show ?case by simp
next
  case (Suc k)
  let ?c = "unat (drop_bit 16 q)"
  from next_seq_iterate_masked[OF assms, of k]
  have "unat (drop_bit 16 (next_seq ((next_seq ^^ k) q)))
          = unat (drop_bit 16 ((next_seq ^^ k) q)) mod 32767 + 1"
    by (intro seq_count_next) simp_all
  also have "\<dots> = ((?c - 1 + k) mod 32767 + 1) mod 32767 + 1" by (simp only: Suc.IH)
  also have "((?c - 1 + k) mod 32767 + 1) mod 32767 = (?c - 1 + Suc k) mod 32767"
    by (simp add: mod_Suc_eq)
  finally show ?case by simp
qed

lemma next_seq_cycle:
  assumes "(q :: 32 word) AND SEQ_MASK = q" and "q \<noteq> 0"
  shows "(next_seq ^^ k) q = q \<longleftrightarrow> 32767 dvd k"
proof -
  let ?c = "unat (drop_bit 16 q)"
  note b = seq_count_bounds[OF assms]
  from next_seq_iterate_masked[OF assms, of k] assms(1)
  have "(next_seq ^^ k) q = q \<longleftrightarrow> unat (drop_bit 16 ((next_seq ^^ k) q)) = ?c"
    by (intro masked_eq_iff) simp_all
  also have "\<dots> \<longleftrightarrow> (?c - 1 + k) mod 32767 + 1 = ?c"
    by (simp only: seq_count_iterate[OF assms])
  also have "\<dots> \<longleftrightarrow> (?c - 1 + k) mod 32767 = ?c - 1" using b by auto
  also have "\<dots> \<longleftrightarrow> 32767 dvd k" using b by (intro mod_shift_iff) simp
  finally show ?thesis .
qed

section \<open>Sequence steps over a run\<close>

text \<open>What an open and a close do to the sequences of the table, and with it what a run
  does to the sequence of one slot.\<close>

lemma open_device_table_step:
  "mDevicesById (snd (open_device fx nm s)) =
     (if reaches_seq_step fx s
      then (let T = mDevicesById (advance_seq (open_slot s) (grow_table (open_slot s) s))
            in if fst (open_device fx nm s) = 0
               then T[open_slot s := (T ! open_slot s)\<lparr>device := Some (fst (candidate fx nm s))\<rparr>]
               else T)
      else mDevicesById s)"
proof (cases "reaches_probe fx s")
  case True
  then have r: "reaches_seq_step fx s" by (simp add: reaches_probe_def reaches_seq_step_def)
  show ?thesis
    by (simp add: open_device_reach[OF True] r Let_def register_device_def)
next
  case False
  have g: "mDevicesById (advance_seq k (grow_table k (s\<lparr>os_open := x\<rparr>)))
             = mDevicesById (advance_seq k (grow_table k s))" for k x
    by (simp add: advance_seq_def grow_table_def mNumDevicesById_def)
  from False consider
      (nofd) "fx_fd fx < 0"
    | (noversion) "\<not> fx_fd fx < 0" "\<not> fx_version fx"
    | (noid) "\<not> fx_fd fx < 0" "fx_version fx" "\<not> fx_id fx"
    | (excluded) "\<not> fx_fd fx < 0" "fx_version fx" "fx_id fx"
        "probe_name fx \<in> set (mExcludedDevices s)"
    | (oom_table) "\<not> fx_fd fx < 0" "fx_version fx" "fx_id fx"
        "probe_name fx \<notin> set (mExcludedDevices s)"
        "mNumDevicesById s \<le> open_slot s" "fx_oom_devids fx"
    | (oom_poll) "\<not> fx_fd fx < 0" "fx_version fx" "fx_id fx"
        "probe_name fx \<notin> set (mExcludedDevices s)"
        "\<not> (mNumDevicesById s \<le> open_slot s \<and> fx_oom_devids fx)" "fx_oom_fds fx"
    | (oom_record) "\<not> fx_fd fx < 0" "fx_version fx" "fx_id fx"
        "probe_name fx \<notin> set (mExcludedDevices s)"
        "\<not> (mNumDevicesById s \<le> open_slot s \<and> fx_oom_devids fx)" "\<not> fx_oom_fds fx"
        "fx_oom_device fx"
    unfolding reaches_probe_def by (cases "fx_fd fx < 0") auto
  then show ?thesis
  proof cases
    case nofd then show ?thesis by (simp add: open_device_def reaches_seq_step_def)
  next
    case noversion then show ?thesis by (simp add: open_device_def reaches_seq_step_def)
  next
    case noid then show ?thesis by (simp add: open_device_def reaches_seq_step_def)
  next
    case excluded then show ?thesis by (simp add: open_device_def Let_def reaches_seq_step_def)
  next
    case oom_table then show ?thesis
      by (simp add: open_device_def Let_def open_slot_def mNumDevicesById_def reaches_seq_step_def)
  next
    case oom_poll then show ?thesis
      by (auto simp add: open_device_def Let_def open_slot_def mNumDevicesById_def reaches_seq_step_def g)
  next
    case oom_record then show ?thesis
      by (auto simp add: open_device_def Let_def open_slot_def mNumDevicesById_def reaches_seq_step_def g)
  qed
qed

lemma open_device_seq:
  assumes "i < mNumDevicesById s"
  shows "i < mNumDevicesById (snd (open_device fx nm s))"
    and "seq (mDevicesById (snd (open_device fx nm s)) ! i) =
           (if reaches_seq_step fx s \<and> open_slot s = i then next_seq (seq (mDevicesById s ! i))
            else seq (mDevicesById s ! i))"
proof -
  let ?T = "mDevicesById (advance_seq (open_slot s) (grow_table (open_slot s) s))"
  have l: "i < length ?T" using assms advanced_table(1)[of s] by (simp split: if_splits)
  have a: "seq (?T ! i) = (if open_slot s = i then next_seq (seq (mDevicesById s ! i))
                           else seq (mDevicesById s ! i))"
  proof (cases "open_slot s = i")
    case True
    with advanced_table(4)[of s] assms show ?thesis by (simp add: slot_seq_def)
  next
    case False
    with advanced_table(6)[OF assms, of ] show ?thesis by simp
  qed
  have u: "seq (?T[k := (?T ! k)\<lparr>device := d\<rparr>] ! i) = seq (?T ! i)" for k d
    using l by (cases "k = i") simp_all
  show "i < mNumDevicesById (snd (open_device fx nm s))"
    using l assms by (simp add: open_device_table_step mNumDevicesById_def Let_def)
  show "seq (mDevicesById (snd (open_device fx nm s)) ! i) =
           (if reaches_seq_step fx s \<and> open_slot s = i then next_seq (seq (mDevicesById s ! i))
            else seq (mDevicesById s ! i))"
  proof (cases "reaches_seq_step fx s")
    case False
    then show ?thesis by (simp add: open_device_table_step)
  next
    case True
    have "seq (mDevicesById (snd (open_device fx nm s)) ! i) = seq (?T ! i)"
      by (cases "fst (open_device fx nm s) = 0") (simp_all add: open_device_table_step True Let_def u)
    with a True show ?thesis by simp
  qed
qed

lemma close_device_seq:
  assumes "close_device nm s = Inr (rc, s')"
  shows "mNumDevicesById s' = mNumDevicesById s"
    and "seq (mDevicesById s' ! i) = seq (mDevicesById s ! i)"
proof -
  from close_device_cases[OF assms]
  have "mNumDevicesById s' = mNumDevicesById s \<and> seq (mDevicesById s' ! i) = seq (mDevicesById s ! i)"
  proof
    assume "rc = -1 \<and> s' = s" then show ?thesis by simp
  next
    assume "rc = 0 \<and> (\<exists>i d. i \<in> set [1 ..< mFDCount s] \<and> mDevices s ! i = Some d \<and> path d = nm
                         \<and> close_at i d s = Inr s')"
    then obtain j d where c: "close_at j d s = Inr s'" by blast
    let ?k = "unat (dev_id d AND ID_MASK)"
    have "seq ((mDevicesById s)[?k := (mDevicesById s ! ?k)\<lparr>device := None\<rparr>] ! i)
            = seq (mDevicesById s ! i)"
      by (cases "?k = i"; cases "i < length (mDevicesById s)") (simp_all add: list_update_beyond)
    then show ?thesis by (simp add: close_at_fields(8)[OF c] mNumDevicesById_def)
  qed
  then show "mNumDevicesById s' = mNumDevicesById s"
    and "seq (mDevicesById s' ! i) = seq (mDevicesById s ! i)" by simp_all
qed

lemma evolves_seq:
  assumes "evolves i s k s'" and "i < mNumDevicesById s"
  shows "i < mNumDevicesById s' \<and> seq (mDevicesById s' ! i) = (next_seq ^^ k) (seq (mDevicesById s ! i))"
  using assms
proof (induction rule: evolves.induct)
  case ev_refl
  then show ?case by simp
next
  case (ev_exclude k s1 n)
  then show ?case by (simp add: addExcludedDevice_def mNumDevicesById_def)
next
  case (ev_opened k s1)
  then show ?case by (simp add: mNumDevicesById_def)
next
  case (ev_open k s1 fx deviceName)
  from ev_open.IH[OF ev_open.prems] have i: "i < mNumDevicesById s1"
    and q: "seq (mDevicesById s1 ! i) = (next_seq ^^ k) (seq (mDevicesById s ! i))" by simp_all
  from open_device_seq[OF i, of fx deviceName] q show ?case by simp
next
  case (ev_close k s1 deviceName rc s2)
  from close_device_seq[OF ev_close.hyps(2)] ev_close.IH[OF ev_close.prems] show ?case by simp
next
  case (ev_drain k s1 ev s2)
  from drain_pending_fields[OF ev_drain.hyps(2)] ev_drain.IH[OF ev_drain.prems]
  show ?case by simp
qed

lemma evolves_reachable:
  assumes "evolves i s k s'" and "reachable s"
  shows "reachable s'"
  using assms
  by (induction rule: evolves.induct)
     (auto intro: reach_exclude reach_opened reach_open reach_close reach_drain)

lemma evolves_table_grows:
  assumes "evolves i s k s'"
  shows "mNumDevicesById s \<le> mNumDevicesById s'"
  using assms
proof (induction rule: evolves.induct)
  case ev_refl
  then show ?case by simp
next
  case (ev_exclude k s1 n)
  then show ?case by (simp add: addExcludedDevice_def mNumDevicesById_def)
next
  case (ev_opened k s1)
  then show ?case by (simp add: mNumDevicesById_def)
next
  case (ev_open k s1 fx deviceName)
  with open_device_table_grows[of s1 fx deviceName] show ?case by simp
next
  case (ev_close k s1 deviceName rc s2)
  with close_device_seq(1)[OF ev_close.hyps(2)] show ?case by simp
next
  case (ev_drain k s1 ev s2)
  with drain_pending_fields[OF ev_drain.hyps(2)] show ?case by simp
qed

lemma closed_id_lookup:
  fixes before released later :: EventHub
  defines "old \<equiv> dev_id (hd (mClosingDevices released))"
  defines "slot \<equiv> unat (old AND ID_MASK)"
  assumes r: "reachable before" and c: "close_device deviceName before = Inr (0, released)"
    and e: "evolves slot released n later"
    and b: "mNumDevicesById later \<le> 2 ^ 16"
  shows "old \<noteq> 0" and "slot < mNumDevicesById later"
    and "device (mDevicesById released ! slot) = None"
    and "seq (mDevicesById released ! slot) = old AND SEQ_MASK"
    and "seq (mDevicesById later ! slot) = (next_seq ^^ n) (old AND SEQ_MASK)"
    and "(next_seq ^^ n) (old AND SEQ_MASK) = old AND SEQ_MASK \<longleftrightarrow> 32767 dvd n"
    and "getDevice later old = (if 32767 dvd n then device (mDevicesById later ! slot) else None)"
proof -
  from close_device_cases[OF c] obtain j d where
    cl: "j \<in> set [1 ..< mFDCount before]" "mDevices before ! j = Some d"
        "close_at j d before = Inr released"
    by auto
  have hd: "old = dev_id d" by (simp add: old_def close_at_fields(1)[OF cl(3)])
  from cl(1) reachable_poll_inv[OF r] have j: "j < length (mDevices before)"
    by (simp add: poll_inv_def mFDCount_def)
  have nb: "mNumDevicesById before \<le> 2 ^ 16"
    using evolves_table_grows[OF e] close_device_seq(1)[OF c] b by simp
  note inv = reachable_table_inv[OF r nb]
  from table_inv_close_at(2)[OF inv cl(3) j cl(2) nb] obtain i where
    i: "i < mNumDevicesById before" "device (mDevicesById before ! i) = Some d"
       "unat (dev_id d AND ID_MASK) = i"
       "mDevicesById released = (mDevicesById before)[i := (mDevicesById before ! i)\<lparr>device := None\<rparr>]"
    by blast
  have sl: "slot = i" by (simp add: slot_def hd i(3))
  let ?q = "seq (mDevicesById before ! i)"
  from inv have st: "seq_table (mDevicesById before)" by (simp add: table_inv_def)
  have il: "i < length (mDevicesById before)" "length (mDevicesById before) \<le> 2 ^ 16" "i < 2 ^ 16"
    using i(1) nb by (simp_all add: mNumDevicesById_def)
  note q = seq_tableD[OF st il(1)]
  have qm: "?q AND SEQ_MASK = ?q" by (rule q(1))
  have qn: "?q \<noteq> 0" by (rule q(2)[OF i(2)])
  have oid: "old = word_of_nat i OR ?q" using q(3)[OF i(2)] hd by simp
  have os: "old AND SEQ_MASK = ?q" by (simp only: oid composite_parts(1)[OF il(3) qm])
  show o0: "old \<noteq> 0" using seq_table_slot(3)[OF st il(1,2) i(2)] hd by simp
  have ir: "i < mNumDevicesById released" using il(1) by (simp add: i(4) mNumDevicesById_def)
  show "device (mDevicesById released ! slot) = None" using il(1) by (simp add: sl i(4))
  show "seq (mDevicesById released ! slot) = old AND SEQ_MASK" using il(1) by (simp add: sl i(4) os)
  then have sr: "seq (mDevicesById released ! i) = ?q" by (simp add: sl os)
  from evolves_seq[OF e[unfolded sl] ir] sr
  have il2: "i < mNumDevicesById later"
    and sq: "seq (mDevicesById later ! i) = (next_seq ^^ n) ?q" by simp_all
  show "slot < mNumDevicesById later" by (simp add: sl il2)
  show "seq (mDevicesById later ! slot) = (next_seq ^^ n) (old AND SEQ_MASK)" by (simp add: sl sq os)
  show cy: "(next_seq ^^ n) (old AND SEQ_MASK) = old AND SEQ_MASK \<longleftrightarrow> 32767 dvd n"
    unfolding os by (rule next_seq_cycle[OF qm qn])
  have rl: "reachable later"
    by (rule evolves_reachable[OF e reach_close[OF r c]])
  from reachable_table_inv[OF rl b] have st2: "seq_table (mDevicesById later)"
    by (simp add: table_inv_def)
  have l2: "i < length (mDevicesById later)" using il2 by (simp add: mNumDevicesById_def)
  have "getDevice later old = (if 32767 dvd n then device (mDevicesById later ! i) else None)"
  proof (cases "device (mDevicesById later ! i)")
    case None
    with o0 il2 show ?thesis by (simp add: getDevice_eq Let_def slot_def[symmetric] sl)
  next
    case (Some d')
    from seq_tableD(3)[OF st2 l2 Some] sq
    have id': "dev_id d' = word_of_nat i OR (next_seq ^^ n) ?q" by simp
    from next_seq_iterate_masked[OF qm qn, of n]
    have nm: "(next_seq ^^ n) ?q AND SEQ_MASK = (next_seq ^^ n) ?q" by simp
    have "dev_id d' = old \<longleftrightarrow> (next_seq ^^ n) ?q = ?q"
    proof
      assume "dev_id d' = old"
      then have "(word_of_nat i OR (next_seq ^^ n) ?q) AND SEQ_MASK = (word_of_nat i OR ?q) AND SEQ_MASK"
        by (simp only: id' oid)
      then show "(next_seq ^^ n) ?q = ?q"
        by (simp only: composite_parts(1)[OF il(3) nm] composite_parts(1)[OF il(3) qm])
    next
      assume "(next_seq ^^ n) ?q = ?q"
      then show "dev_id d' = old" by (simp only: id' oid)
    qed
    with cy[unfolded os] have "dev_id d' = old \<longleftrightarrow> 32767 dvd n" by simp
    with o0 il2 Some show ?thesis
      by (simp add: getDevice_eq Let_def slot_def[symmetric] sl)
  qed
  then show "getDevice later old = (if 32767 dvd n then device (mDevicesById later ! slot) else None)"
    by (simp add: sl)
qed

section \<open>A slot reused after a full cycle\<close>

text \<open>The dropped opens after the close keep the table and pick slot 1 each time; the
  touch screen opened after 32766 of them is kept in slot 1.\<close>

lemma classify_device_plain:
  assumes "classes d AND CLASS_KEYBOARD = 0"
  shows "fst (classify_device fx nm kb d s)
           = classify_headset (claim_switches fx (dev_id d) (mSwitches s))
               (classify_touch fx kb (classify_pointer fx kb d))"
  using assms by (simp add: classify_device_def Let_def)

lemma free_slot_map:
  "map device xs = map device ys \<Longrightarrow> free_slot xs k = free_slot ys k"
proof (induction xs arbitrary: ys k)
  case Nil then show ?case by simp
next
  case (Cons x xs)
  then obtain y ys' where "ys = y # ys'" by (cases ys) auto
  with Cons show ?case by auto
qed

lemma idle_slot_facts:
  assumes "idle_slot s"
  shows "open_slot s = 1" and "mNumDevicesById s = 2"
proof -
  have a: "open_slot released_hub = 1" "mNumDevicesById released_hub = 2" by code_simp+
  from assms have m: "map device (mDevicesById s) = map device (mDevicesById released_hub)"
    by (simp add: idle_slot_def)
  from free_slot_map[OF m, of 0] a(1) show "open_slot s = 1" by (simp add: open_slot_def)
  from arg_cong[OF m, of length] a(2) show "mNumDevicesById s = 2"
    by (simp add: mNumDevicesById_def)
qed

lemma idle_slot_released: "idle_slot released_hub"
proof -
  have "mExcludedDevices released_hub = [] \<and> mSwitches released_hub SW_HEADPHONE_INSERT = 0"
    by code_simp
  then show ?thesis by (simp add: idle_slot_def)
qed

lemma sensor_probe:
  assumes "idle_slot s"
  shows "reaches_probe (fx_none 12 ''sensor'') s"
    and "reaches_seq_step (fx_none 12 ''sensor'') s"
    and "classes (fst (candidate (fx_none 12 ''sensor'') nm s)) = 0"
proof -
  from assms have e: "mExcludedDevices s = []" and h: "mSwitches s SW_HEADPHONE_INSERT = 0"
    by (simp_all add: idle_slot_def)
  show "reaches_probe (fx_none 12 ''sensor'') s"
    by (simp add: reaches_probe_def fx_none_def e idle_slot_facts[OF assms])
  show "reaches_seq_step (fx_none 12 ''sensor'') s"
    by (simp add: reaches_seq_step_def fx_none_def e idle_slot_facts[OF assms])
  have z: "test_bit b (replicate n 0) = False" if "b div 8 < n" for b n
    using that by (simp add: test_bit_def)
  show "classes (fst (candidate (fx_none 12 ''sensor'') nm s)) = 0"
    by (simp add: candidate_def Let_def classify_device_def classify_keyboard_def
        cache_key_bitmask_def classify_pointer_def classify_touch_def classify_headset_def
        claim_switches_def new_device_t_def fx_none_def ioctl_bits_def
        h[unfolded SW_HEADPHONE_INSERT_def] z hub_consts)
qed

lemma drop_sensor_idle:
  assumes "idle_slot s"
  shows "idle_slot (drop_sensor s)"
proof -
  note f = idle_slot_facts[OF assms]
  from sensor_probe(1)[OF assms] sensor_probe(3)[OF assms, of "''/dev/input/event2''"]
  have o: "drop_sensor s
     = delete_device (fst (candidate (fx_none 12 ''sensor'') ''/dev/input/event2'' s))
         (os_close 12 (snd (candidate (fx_none 12 ''sensor'') ''/dev/input/event2'' s)))"
    by (simp add: drop_sensor_def open_device_reach fx_none_def)
  have sw: "claim_switches (fx_none 12 ''sensor'') i sw = sw" for i sw
    by (simp add: claim_switches_def fx_none_def)
  have "mSwitches (snd (candidate (fx_none 12 ''sensor'') ''/dev/input/event2'' s)) = mSwitches s"
    by (simp add: candidate_def Let_def sw)
  then show ?thesis
    using assms f by (simp add: idle_slot_def o map_device_advance)
qed

lemma drop_sensor_evolves:
  "evolves 1 released_hub n ((drop_sensor ^^ n) released_hub)
   \<and> idle_slot ((drop_sensor ^^ n) released_hub)"
proof (induction n)
  case 0
  show ?case by (simp add: ev_refl idle_slot_released)
next
  case (Suc n)
  let ?s = "(drop_sensor ^^ n) released_hub"
  from Suc have e: "evolves 1 released_hub n ?s" and i: "idle_slot ?s" by simp_all
  from ev_open[OF e, of "fx_none 12 ''sensor''" "''/dev/input/event2''"]
    sensor_probe(2)[OF i] idle_slot_facts(1)[OF i]
  have "evolves 1 released_hub (Suc n) (drop_sensor ?s)" by (simp add: drop_sensor_def)
  with drop_sensor_idle[OF i] show ?case by simp
qed

lemma touchscreen_kept:
  assumes "idle_slot s"
  shows "fst (open_device (fx_touchscreen 12) nm s) = 0"
    and "device (mDevicesById (snd (open_device (fx_touchscreen 12) nm s)) ! 1)
           = Some (fst (candidate (fx_touchscreen 12) nm s))"
    and "mNumDevicesById (snd (open_device (fx_touchscreen 12) nm s)) = 2"
    and "reaches_seq_step (fx_touchscreen 12) s"
proof -
  note f = idle_slot_facts[OF assms]
  from assms have e: "mExcludedDevices s = []" by (simp add: idle_slot_def)
  have rp: "reaches_probe (fx_touchscreen 12) s"
    by (simp add: reaches_probe_def fx_touchscreen_def fx_none_def e f)
  show "reaches_seq_step (fx_touchscreen 12) s"
    by (simp add: reaches_seq_step_def fx_touchscreen_def fx_none_def e f)
  have kb: "classes (fst (candidate (fx_touchscreen 12) nm s)) AND CLASS_KEYBOARD = 0"
    by (simp add: candidate_def Let_def classify_keyboard_def new_device_t_def
        fx_touchscreen_def fx_none_def)
  have t: "classes (classify_touch (fx_touchscreen 12) kb d) = classes d OR 0x14" for kb d
    by (simp add: classify_touch_def Let_def fx_touchscreen_def fx_none_def ioctl_bits_def
        test_bit_def hub_consts)
  have nz: "classes (fst (candidate (fx_touchscreen 12) nm s)) \<noteq> 0"
  proof -
    let ?kb = "ioctl_bits ((KEY_MAX + 7) div 8) (fx_key (fx_touchscreen 12))"
    let ?d = "cache_key_bitmask (fx_touchscreen 12) ?kb
                (classify_keyboard (fx_touchscreen 12) ?kb
                   (new_device_t (allocated s) (new_id s) nm (probe_name (fx_touchscreen 12))))"
    have k0: "classes ?d = 0"
      by (simp add: classify_keyboard_def new_device_t_def fx_touchscreen_def fx_none_def)
    then have "classes ?d AND CLASS_KEYBOARD = 0" by simp
    from classify_device_plain[OF this]
    have "classes (fst (candidate (fx_touchscreen 12) nm s))
            = classes (classify_headset
                 (claim_switches (fx_touchscreen 12) (dev_id ?d) (mSwitches (probing_hub (fx_touchscreen 12) s)))
                 (classify_touch (fx_touchscreen 12) ?kb (classify_pointer (fx_touchscreen 12) ?kb ?d)))"
      by (simp add: candidate_def Let_def)
    also have "\<dots> \<noteq> 0"
      by (simp add: classify_headset_def t or_eq_0_iff)
    finally show ?thesis .
  qed
  have o: "open_device (fx_touchscreen 12) nm s
      = (0, register_device 1 12 (fst (candidate (fx_touchscreen 12) nm s))
              (snd (candidate (fx_touchscreen 12) nm s)))"
  proof -
    have fd: "fx_fd (fx_touchscreen 12) = 12" by (simp add: fx_touchscreen_def fx_none_def)
    from kb nz show ?thesis by (simp add: open_device_reach[OF rp] f fd)
  qed
  show "fst (open_device (fx_touchscreen 12) nm s) = 0" by (simp add: o)
  have l: "length (mDevicesById (advance_seq 1 (grow_table 1 s))) = 2"
    using advanced_table(1)[of s] f by simp
  show "device (mDevicesById (snd (open_device (fx_touchscreen 12) nm s)) ! 1)
           = Some (fst (candidate (fx_touchscreen 12) nm s))"
    using l by (simp add: o register_device_def f)
  show "mNumDevicesById (snd (open_device (fx_touchscreen 12) nm s)) = 2"
    using l by (simp add: o register_device_def f mNumDevicesById_def)
qed

lemma wrapped_hub_evolves:
  "evolves 1 released_hub 32767 wrapped_hub
   \<and> mNumDevicesById wrapped_hub = 2
   \<and> map_option path (device (mDevicesById wrapped_hub ! 1)) = Some ''/dev/input/event2''"
proof -
  let ?s = "(drop_sensor ^^ 32766) released_hub"
  from drop_sensor_evolves[of 32766]
  have e: "evolves 1 released_hub 32766 ?s" and i: "idle_slot ?s" by simp_all
  note k = touchscreen_kept(1)[OF i, of "''/dev/input/event2''"]
    touchscreen_kept(2)[OF i, of "''/dev/input/event2''"]
    touchscreen_kept(3)[OF i, of "''/dev/input/event2''"] touchscreen_kept(4)[OF i]
  from ev_open[OF e, of "fx_touchscreen 12" "''/dev/input/event2''"] k(4) idle_slot_facts(1)[OF i]
  have "evolves 1 released_hub 32767 wrapped_hub" by (simp add: wrapped_hub_def)
  with k(2,3) show ?thesis by (simp add: wrapped_hub_def)
qed

section \<open>Stale identifiers\<close>

lemma started_hub_reachable: "reachable started_hub"
  unfolding started_hub_def by (rule reach_opened[OF reach_platform[OF reach_new]]) (simp add: new_EventHub_def)

lemma paired_hub_reachable: "reachable paired_hub"
proof -
  let ?ops = "[Open (fx_keypad 10) ''/dev/input/event0'',
               Open (fx_touchscreen 11) ''/dev/input/event1'']"
  have "run_ops ?ops started_hub = Inr paired_hub"
    by (simp add: paired_hub_def result_hub_def)
  with started_hub_reachable show ?thesis by (rule run_ops_reachable)
qed

lemma released_hub_close:
  "close_device ''/dev/input/event1'' paired_hub = Inr (0, released_hub)"
proof -
  have "map_sum id fst (close_device ''/dev/input/event1'' paired_hub) = Inr 0" by code_simp
  then obtain h where cl: "close_device ''/dev/input/event1'' paired_hub = Inr (0, h)"
    by (cases "close_device ''/dev/input/event1'' paired_hub") auto
  then show ?thesis by (simp add: released_hub_def result_hub_def)
qed

lemma stale_hub_open:
  "stale_hub = snd (open_device (fx_touchscreen 12) ''/dev/input/event2'' released_hub)"
proof -
  have p: "paired_hub = snd (open_device (fx_touchscreen 11) ''/dev/input/event1''
                          (snd (open_device (fx_keypad 10) ''/dev/input/event0'' started_hub)))"
    by (simp add: paired_hub_def result_hub_def)
  have "run_ops [Open (fx_keypad 10) ''/dev/input/event0'',
                 Open (fx_touchscreen 11) ''/dev/input/event1'',
                 Close ''/dev/input/event1'',
                 Open (fx_touchscreen 12) ''/dev/input/event2''] started_hub
        = run_ops [Close ''/dev/input/event1'',
                   Open (fx_touchscreen 12) ''/dev/input/event2''] paired_hub"
    by (simp add: p)
  also have "\<dots> = Inr (snd (open_device (fx_touchscreen 12) ''/dev/input/event2'' released_hub))"
    by (simp add: released_hub_close)
  finally show ?thesis by (simp add: stale_hub_def result_hub_def)
qed

lemma released_hub_old:
  "dev_id (hd (mClosingDevices released_hub)) = 0x10001"
  "unat ((0x10001 :: int32) AND ID_MASK) = 1"
  by code_simp+

lemma stale_hub_evolves: "evolves 1 released_hub 1 stale_hub"
proof -
  have c: "reaches_seq_step (fx_touchscreen 12) released_hub \<and> open_slot released_hub = 1"
    by code_simp
  from ev_open[OF ev_refl, of 1 released_hub "fx_touchscreen 12" "''/dev/input/event2''"] c
  show ?thesis by (simp add: stale_hub_open)
qed

text \<open>
  C1, as stated, fails in two ways.  \<^verbatim>\<open>scancodeToKeycode\<close> retries on the first keyboard
  when the identifier finds no record (lines 271-280): a keypad is the first keyboard in
  slot 0; a touch screen is opened in slot 1 (id \<open>0x10001\<close>), closed, and the slot is
  reassigned (id \<open>0x20001\<close>); the stale id finds no record, yet \<^verbatim>\<open>scancodeToKeycode\<close>
  answers \<^verbatim>\<open>NO_ERROR\<close> with the keypad's mapping of scancode 30.  And the sequence of a
  slot has 32767 values and is advanced by every open that reaches line 659, kept or
  dropped: after the same close, 32766 opens of a device without capabilities (each one
  dropped) and the open of another touch screen, slot 1 holds a new record whose id is
  \<open>0x10001\<close> again, and the closed device's id finds that record.
\<close>

theorem stale_id_translated:
  "map dev_id (mClosingDevices stale_hub) = [0x10001]
   \<and> map (map_option dev_id \<circ> device) (mDevicesById stale_hub) = [Some 0x10000, Some 0x20001]
   \<and> getDevice stale_hub 0x10001 = None
   \<and> scancodeToKeycode stale_hub 0x10001 30 = (NO_ERROR, 29, 1)
   \<and> map dev_id (mClosingDevices released_hub) = [0x10001]
   \<and> map_option path (getDevice wrapped_hub 0x10001) = Some ''/dev/input/event2''"
proof -
  have a: "map dev_id (mClosingDevices stale_hub) = [0x10001]
   \<and> map (map_option dev_id \<circ> device) (mDevicesById stale_hub) = [Some 0x10000, Some 0x20001]
   \<and> getDevice stale_hub 0x10001 = None
   \<and> scancodeToKeycode stale_hub 0x10001 30 = (NO_ERROR, 29, 1)
   \<and> map dev_id (mClosingDevices released_hub) = [0x10001]"
    by code_simp
  note w = wrapped_hub_evolves
  from w have e: "evolves (unat (dev_id (hd (mClosingDevices released_hub)) AND ID_MASK))
                    released_hub 32767 wrapped_hub"
    by (simp add: released_hub_old)
  from w have b: "mNumDevicesById wrapped_hub \<le> 2 ^ 16" by simp
  from closed_id_lookup(7)[OF paired_hub_reachable released_hub_close e b]
  have "getDevice wrapped_hub 0x10001 = device (mDevicesById wrapped_hub ! 1)"
    by (simp add: released_hub_old)
  with w have "map_option path (getDevice wrapped_hub 0x10001) = Some ''/dev/input/event2''"
    by simp
  with a show ?thesis by simp
qed

text \<open>
  C1, amended.  \<^verbatim>\<open>getDevice\<close> returns a record exactly when the slot index
  \<^verbatim>\<open>id & 0xFFFF\<close> is in range, the slot is occupied, and the stored record's id equals the
  requested id (identifier 0 being looked up as \<^verbatim>\<open>mFirstKeyboardId\<close>).  So a nonzero
  identifier whose slot now holds a record with another id finds nothing, and whenever
  \<^verbatim>\<open>getDevice\<close> finds nothing \<^verbatim>\<open>getDeviceName\<close> returns the empty name, \<^verbatim>\<open>getDeviceClasses\<close> 0,
  and \<^verbatim>\<open>getAbsoluteInfo\<close>, \<^verbatim>\<open>getSwitchState\<close>, \<^verbatim>\<open>getScancodeState\<close> and \<^verbatim>\<open>getKeycodeState\<close>
  -1, while \<^verbatim>\<open>scancodeToKeycode\<close> answers from the layout of the first keyboard when one
  was designated by the \<^verbatim>\<open>-keypad\<close> rule and maps the scancode, and \<^verbatim>\<open>NAME_NOT_FOUND\<close>
  otherwise.  For the identifier of a device that \<^verbatim>\<open>close_device\<close> closed in a reachable
  hub, and every later hub of the run with a table of at most \<open>2^16\<close> entries: let \<open>n\<close> be
  the number of opens since the close that picked the closed device's slot and reached
  line 659, kept or dropped.  The slot's sequence is the closed one advanced \<open>n\<close> times,
  which equals the closed one exactly when 32767 divides \<open>n\<close>.  When it does not, the
  closed identifier finds nothing and the six accessors answer not-found; when it does,
  the closed identifier finds whatever record the slot holds.
\<close>

theorem getDevice_exact:
  "(let eff = (if deviceId = 0 then mFirstKeyboardId s else deviceId);
        slot = unat (eff AND ID_MASK)
    in (getDevice s deviceId = Some d \<longleftrightarrow>
          slot < mNumDevicesById s \<and> device (mDevicesById s ! slot) = Some d \<and> dev_id d = eff)
     \<and> (deviceId \<noteq> 0 \<and> slot < mNumDevicesById s
           \<and> (\<exists>d'. device (mDevicesById s ! slot) = Some d' \<and> dev_id d' \<noteq> deviceId)
         \<longrightarrow> getDevice s deviceId = None)
     \<and> (getDevice s deviceId = None \<longrightarrow>
           getDeviceName s deviceId = []
         \<and> getDeviceClasses s deviceId = 0
         \<and> getAbsoluteInfo k s deviceId axis = Inr (-1, None)
         \<and> getSwitchState_dev k s deviceId sw = Inr (-1)
         \<and> getScancodeState_dev k s deviceId code = Inr (-1)
         \<and> getKeycodeState_dev k s deviceId code = Inr (-1)
         \<and> scancodeToKeycode s deviceId code =
             (if mHaveFirstKeyboard s
              then (case getDevice s (mFirstKeyboardId s) of
                      None \<Rightarrow> (NAME_NOT_FOUND, 0, 0)
                    | Some first \<Rightarrow>
                        (case layout_map (layoutMap first) code of
                           None \<Rightarrow> (NAME_NOT_FOUND, 0, 0)
                         | Some (keycode, flags) \<Rightarrow> (NO_ERROR, keycode, flags)))
              else (NAME_NOT_FOUND, 0, 0))))
   \<and> (reachable before
        \<and> close_device deviceName before = Inr (0, released)
        \<and> evolves (unat (dev_id (hd (mClosingDevices released)) AND ID_MASK)) released n later
        \<and> mNumDevicesById later \<le> 2 ^ 16
      \<longrightarrow> (let old = dev_id (hd (mClosingDevices released));
               slot = unat (old AND ID_MASK)
           in old \<noteq> 0 \<and> slot < mNumDevicesById later
            \<and> device (mDevicesById released ! slot) = None
            \<and> seq (mDevicesById released ! slot) = old AND SEQ_MASK
            \<and> seq (mDevicesById later ! slot) = (next_seq ^^ n) (old AND SEQ_MASK)
            \<and> ((next_seq ^^ n) (old AND SEQ_MASK) = old AND SEQ_MASK \<longleftrightarrow> 32767 dvd n)
            \<and> getDevice later old
                = (if 32767 dvd n then device (mDevicesById later ! slot) else None)
            \<and> (\<not> 32767 dvd n \<longrightarrow>
                  getDeviceName later old = []
                \<and> getDeviceClasses later old = 0
                \<and> getAbsoluteInfo k later old axis = Inr (-1, None)
                \<and> getSwitchState_dev k later old sw = Inr (-1)
                \<and> getScancodeState_dev k later old code = Inr (-1)
                \<and> getKeycodeState_dev k later old code = Inr (-1))))"
proof -
  let ?eff = "if deviceId = 0 then mFirstKeyboardId s else deviceId"
  let ?slot = "unat (?eff AND ID_MASK)"
  have a: "getDevice s deviceId = Some d \<longleftrightarrow>
         ?slot < mNumDevicesById s \<and> device (mDevicesById s ! ?slot) = Some d \<and> dev_id d = ?eff"
    using getDevice_Some_iff[of s deviceId d] by (simp add: Let_def)
  have b: "getDevice s deviceId = None"
    if "deviceId \<noteq> 0 \<and> ?slot < mNumDevicesById s
          \<and> (\<exists>d'. device (mDevicesById s ! ?slot) = Some d' \<and> dev_id d' \<noteq> deviceId)"
    using that by (auto simp: getDevice_eq Let_def)
  have c: "getDeviceName h x = []
        \<and> getDeviceClasses h x = 0
        \<and> getAbsoluteInfo k h x axis = Inr (-1, None)
        \<and> getSwitchState_dev k h x sw = Inr (-1)
        \<and> getScancodeState_dev k h x code = Inr (-1)
        \<and> getKeycodeState_dev k h x code = Inr (-1)
        \<and> scancodeToKeycode h x code =
            (if mHaveFirstKeyboard h
             then (case getDevice h (mFirstKeyboardId h) of
                     None \<Rightarrow> (NAME_NOT_FOUND, 0, 0)
                   | Some first \<Rightarrow>
                       (case layout_map (layoutMap first) code of
                          None \<Rightarrow> (NAME_NOT_FOUND, 0, 0)
                        | Some (keycode, flags) \<Rightarrow> (NO_ERROR, keycode, flags)))
             else (NAME_NOT_FOUND, 0, 0))"
    if "getDevice h x = None" for h x
    using that
    by (simp add: getDeviceName_def getDeviceClasses_def getAbsoluteInfo_def getSwitchState_dev_def
        getScancodeState_dev_def getKeycodeState_dev_def scancodeToKeycode_def Let_def
        split: option.splits)
  have first: "(getDevice s deviceId = Some d \<longleftrightarrow>
          ?slot < mNumDevicesById s \<and> device (mDevicesById s ! ?slot) = Some d \<and> dev_id d = ?eff)
     \<and> (deviceId \<noteq> 0 \<and> ?slot < mNumDevicesById s
           \<and> (\<exists>d'. device (mDevicesById s ! ?slot) = Some d' \<and> dev_id d' \<noteq> deviceId)
         \<longrightarrow> getDevice s deviceId = None)
     \<and> (getDevice s deviceId = None \<longrightarrow>
           getDeviceName s deviceId = []
         \<and> getDeviceClasses s deviceId = 0
         \<and> getAbsoluteInfo k s deviceId axis = Inr (-1, None)
         \<and> getSwitchState_dev k s deviceId sw = Inr (-1)
         \<and> getScancodeState_dev k s deviceId code = Inr (-1)
         \<and> getKeycodeState_dev k s deviceId code = Inr (-1)
         \<and> scancodeToKeycode s deviceId code =
             (if mHaveFirstKeyboard s
              then (case getDevice s (mFirstKeyboardId s) of
                      None \<Rightarrow> (NAME_NOT_FOUND, 0, 0)
                    | Some first \<Rightarrow>
                        (case layout_map (layoutMap first) code of
                           None \<Rightarrow> (NAME_NOT_FOUND, 0, 0)
                         | Some (keycode, flags) \<Rightarrow> (NO_ERROR, keycode, flags)))
              else (NAME_NOT_FOUND, 0, 0)))"
    using a b c[of s deviceId] by blast
  let ?old = "dev_id (hd (mClosingDevices released))"
  let ?sl = "unat (?old AND ID_MASK)"
  have second: "?old \<noteq> 0 \<and> ?sl < mNumDevicesById later
            \<and> device (mDevicesById released ! ?sl) = None
            \<and> seq (mDevicesById released ! ?sl) = ?old AND SEQ_MASK
            \<and> seq (mDevicesById later ! ?sl) = (next_seq ^^ n) (?old AND SEQ_MASK)
            \<and> ((next_seq ^^ n) (?old AND SEQ_MASK) = ?old AND SEQ_MASK \<longleftrightarrow> 32767 dvd n)
            \<and> getDevice later ?old
                = (if 32767 dvd n then device (mDevicesById later ! ?sl) else None)
            \<and> (\<not> 32767 dvd n \<longrightarrow>
                  getDeviceName later ?old = []
                \<and> getDeviceClasses later ?old = 0
                \<and> getAbsoluteInfo k later ?old axis = Inr (-1, None)
                \<and> getSwitchState_dev k later ?old sw = Inr (-1)
                \<and> getScancodeState_dev k later ?old code = Inr (-1)
                \<and> getKeycodeState_dev k later ?old code = Inr (-1))"
    if h: "reachable before
        \<and> close_device deviceName before = Inr (0, released)
        \<and> evolves (unat (dev_id (hd (mClosingDevices released)) AND ID_MASK)) released n later
        \<and> mNumDevicesById later \<le> 2 ^ 16"
  proof -
    from h have r: "reachable before"
      and cl: "close_device deviceName before = Inr (0, released)"
      and ev: "evolves ?sl released n later"
      and nb: "mNumDevicesById later \<le> 2 ^ 16"
      by simp_all
    note l = closed_id_lookup[OF r cl ev nb]
    have "getDevice later ?old = None" if "\<not> 32767 dvd n"
      using l(7) that by simp
    from c[OF this] l show ?thesis by simp
  qed
  show ?thesis unfolding Let_def using first second by blast
qed

theorem getDevice_exact_witness:
  "reachable paired_hub
   \<and> close_device ''/dev/input/event1'' paired_hub = Inr (0, released_hub)
   \<and> dev_id (hd (mClosingDevices released_hub)) = 0x10001
   \<and> evolves 1 released_hub 1 stale_hub
   \<and> seq (mDevicesById stale_hub ! 1) = 0x20000
   \<and> getDevice stale_hub 0x10001 = None
   \<and> map_option dev_id (device (mDevicesById stale_hub ! 1)) = Some 0x20001
   \<and> map_option path (getDevice stale_hub 0x20001) = Some ''/dev/input/event2''
   \<and> getDeviceName stale_hub 0x10001 = []
   \<and> getDeviceClasses stale_hub 0x10001 = 0
   \<and> getAbsoluteInfo no_kernel stale_hub 0x10001 0 = Inr (-1, None)
   \<and> getKeycodeState_dev no_kernel stale_hub 0x10001 45 = Inr (-1)
   \<and> scancodeToKeycode stale_hub 0x10001 30 = (NO_ERROR, 29, 1)
   \<and> scancodeToKeycode stale_hub 0x10001 31 = (NAME_NOT_FOUND, 0, 0)
   \<and> evolves 1 released_hub 32767 wrapped_hub
   \<and> getDevice wrapped_hub 0x10001 = device (mDevicesById wrapped_hub ! 1)
   \<and> map_option path (device (mDevicesById wrapped_hub ! 1)) = Some ''/dev/input/event2''"
proof -
  note r = paired_hub_reachable
  note cl = released_hub_close
  note old = released_hub_old
  have e1: "evolves (unat (dev_id (hd (mClosingDevices released_hub)) AND ID_MASK))
              released_hub 1 stale_hub"
    using stale_hub_evolves by (simp add: old)
  have n1: "mNumDevicesById stale_hub \<le> 2 ^ 16"
  proof -
    have "mNumDevicesById stale_hub = 2" by code_simp
    then show ?thesis by simp
  qed
  have nd: "\<not> (32767 :: nat) dvd 1" by simp
  have ns: "(next_seq ^^ 1) (0x10001 AND SEQ_MASK) = 0x20000" by code_simp
  note t0 = getDevice_exact[where before = paired_hub and deviceName = "''/dev/input/event1''"
      and released = released_hub and n = 1 and later = stale_hub and k = no_kernel
      and axis = 0 and code = 45, unfolded Let_def, THEN conjunct2]
  from t0 r cl e1 n1 nd
  have g: "getDevice stale_hub 0x10001 = None"
    and sq: "seq (mDevicesById stale_hub ! 1) = (next_seq ^^ 1) (0x10001 AND SEQ_MASK)"
    and r1: "getDeviceName stale_hub 0x10001 = []" "getDeviceClasses stale_hub 0x10001 = 0"
    "getAbsoluteInfo no_kernel stale_hub 0x10001 0 = Inr (-1, None)"
    "getKeycodeState_dev no_kernel stale_hub 0x10001 45 = Inr (-1)"
    by (simp_all add: old)
  from sq ns have sq': "seq (mDevicesById stale_hub ! 1) = 0x20000" by simp
  note w = wrapped_hub_evolves
  from w have e2: "evolves (unat (dev_id (hd (mClosingDevices released_hub)) AND ID_MASK))
                    released_hub 32767 wrapped_hub"
    by (simp add: old)
  from w have n2: "mNumDevicesById wrapped_hub \<le> 2 ^ 16" by simp
  note t3 = getDevice_exact[where before = paired_hub and deviceName = "''/dev/input/event1''"
      and released = released_hub and n = 32767 and later = wrapped_hub,
      unfolded Let_def, THEN conjunct2]
  from t3 r cl e2 n2
  have gw: "getDevice wrapped_hub 0x10001 = device (mDevicesById wrapped_hub ! 1)"
    by (simp add: old)
  obtain d' where d': "device (mDevicesById stale_hub ! 1) = Some d'" "dev_id d' = 0x20001"
  proof -
    have "map_option dev_id (device (mDevicesById stale_hub ! 1)) = Some 0x20001" by code_simp
    then show ?thesis using that by (cases "device (mDevicesById stale_hub ! 1)") auto
  qed
  have s2: "unat ((0x20001 :: int32) AND ID_MASK) = 1" by code_simp
  have m2: "mNumDevicesById stale_hub = 2" by code_simp
  note t1a = getDevice_exact[where s = stale_hub and deviceId = "0x10001" and code = 30,
      unfolded Let_def, THEN conjunct1]
  note t1b = getDevice_exact[where s = stale_hub and deviceId = "0x10001" and code = 31,
      unfolded Let_def, THEN conjunct1]
  note t2 = getDevice_exact[where s = stale_hub and deviceId = "0x20001" and d = d',
      unfolded Let_def, THEN conjunct1]
  from t2 d' s2 m2 have g2: "getDevice stale_hub 0x20001 = Some d'" by simp
  have p: "path d' = ''/dev/input/event2''"
  proof -
    have "map_option path (device (mDevicesById stale_hub ! 1)) = Some ''/dev/input/event2''"
      by code_simp
    with d' show ?thesis by simp
  qed
  have fk: "mHaveFirstKeyboard stale_hub"
    "map_option layoutMap (getDevice stale_hub (mFirstKeyboardId stale_hub))
       = Some [(16, 45, 0), (30, 29, 1)]"
    by code_simp+
  then obtain first where f: "getDevice stale_hub (mFirstKeyboardId stale_hub) = Some first"
    "layoutMap first = [(16, 45, 0), (30, 29, 1)]"
    by (cases "getDevice stale_hub (mFirstKeyboardId stale_hub)") auto
  from t1a g fk(1) f
  have r2: "scancodeToKeycode stale_hub 0x10001 30 = (NO_ERROR, 29, 1)"
    by (simp add: layout_map_def)
  from t1b g fk(1) f
  have r3: "scancodeToKeycode stale_hub 0x10001 31 = (NAME_NOT_FOUND, 0, 0)"
    by (simp add: layout_map_def)
  from r cl old(1) stale_hub_evolves sq' g d' g2 p r1 r2 r3 w gw show ?thesis by simp
qed

section \<open>Keyboards kept, devices dropped\<close>

lemma claim_switch_fold:
  "foldl (claim_switch bits i) sw [0 ..< n] j =
     (if j < n \<and> test_bit j bits \<and> sw j = 0 then i else sw j)"
proof (induction n)
  case 0 show ?case by simp
next
  case (Suc n)
  let ?f = "foldl (claim_switch bits i) sw [0 ..< n]"
  have e: "foldl (claim_switch bits i) sw [0 ..< Suc n] = claim_switch bits i ?f n" by simp
  have ih: "?f j = (if j < n \<and> test_bit j bits \<and> sw j = 0 then i else sw j)" by (rule Suc)
  have ihn: "?f n = sw n"
  proof -
    have "foldl (claim_switch bits i) sw [0 ..< m] n = sw n" if "m \<le> n" for m
      using that by (induction m) (simp_all add: claim_switch_def)
    then show ?thesis by simp
  qed
  show ?case
  proof (cases "j = n")
    case True
    then show ?thesis unfolding e by (simp add: claim_switch_def ihn)
  next
    case False
    then have "claim_switch bits i ?f n j = ?f j" by (simp add: claim_switch_def)
    with False show ?thesis unfolding e by (simp add: ih less_Suc_eq)
  qed
qed

lemma claim_switches_cell:
  "claim_switches fx i sw j =
     (if fx_sw fx \<noteq> None \<and> j < SW_MAX \<and> test_bit j (ioctl_bits ((SW_MAX + 7) div 8) (fx_sw fx))
         \<and> sw j = 0
      then i else sw j)"
  by (auto simp: claim_switches_def Let_def claim_switch_fold)

lemma candidate_unclassified:
  assumes "\<not> (\<exists>b<BTN_MISC. test_bit b (ioctl_bits ((KEY_MAX + 7) div 8) (fx_key fx)))"
    and "\<not> pointer_probe fx (ioctl_bits ((KEY_MAX + 7) div 8) (fx_key fx))"
    and "\<not> touch_probe fx (ioctl_bits ((KEY_MAX + 7) div 8) (fx_key fx))"
    and "\<not> headset_probe fx s"
  shows "classes (fst (candidate fx nm s)) = 0"
proof -
  let ?kb = "ioctl_bits ((KEY_MAX + 7) div 8) (fx_key fx)"
  let ?d0 = "new_device_t (allocated s) (new_id s) nm (probe_name fx)"
  let ?ck = "cache_key_bitmask fx ?kb (classify_keyboard fx ?kb ?d0)"
  have c0: "classes ?d0 = 0" by (simp add: new_device_t_def)
  from classify_keyboard_kbd[OF c0, of fx] assms(1)
  have k: "classes (classify_keyboard fx ?kb ?d0) AND CLASS_KEYBOARD = 0" by simp
  have cls: "classes (cache_key_bitmask fx ?kb e) = classes e" for e
    by (simp add: cache_key_bitmask_def)
  have k1: "classes (classify_keyboard fx ?kb ?d0) = 0"
  proof (cases "fx_key fx \<noteq> None \<and> keys_below_misc ?kb")
    case True
    then have "classes (classify_keyboard fx ?kb ?d0) = CLASS_KEYBOARD"
      by (simp add: classify_keyboard_def new_device_t_def)
    with k show ?thesis by (simp add: hub_consts)
  next
    case False
    then show ?thesis by (auto simp: classify_keyboard_def new_device_t_def)
  qed
  have k0: "classes ?ck = 0" by (simp only: cls k1)
  then have "classes ?ck AND CLASS_KEYBOARD = 0" by simp
  from classify_device_plain[OF this]
  have "classes (fst (candidate fx nm s))
          = classes (classify_headset (claim_switches fx (dev_id ?ck) (mSwitches (probing_hub fx s)))
               (classify_touch fx ?kb (classify_pointer fx ?kb ?ck)))"
    by (simp add: candidate_def Let_def)
  also have "classify_pointer fx ?kb ?ck = ?ck"
    using assms(2) by (auto simp: classify_pointer_def pointer_probe_def Let_def)
  also have "classify_touch fx ?kb ?ck = ?ck"
    using assms(3) by (auto simp: classify_touch_def touch_probe_def Let_def)
  also have "classify_headset (claim_switches fx (dev_id ?ck) (mSwitches (probing_hub fx s))) ?ck = ?ck"
    using assms(4)
    by (auto simp: classify_headset_def headset_probe_def claim_switches_cell)
  finally show ?thesis by (simp add: k0 k1)
qed

lemma candidate_keyBitmask:
  "keyBitmask (fst (candidate fx nm s)) =
     (if \<exists>b<BTN_MISC. test_bit b (ioctl_bits ((KEY_MAX + 7) div 8) (fx_key fx))
      then Some (ioctl_bits ((KEY_MAX + 7) div 8) (fx_key fx)) else None)"
proof -
  let ?kb = "ioctl_bits ((KEY_MAX + 7) div 8) (fx_key fx)"
  let ?d0 = "new_device_t (allocated s) (new_id s) nm (probe_name fx)"
  have c0: "classes ?d0 = 0" by (simp add: new_device_t_def)
  note k = classify_keyboard_kbd[OF c0, of fx]
  have n: "classes (classify_keyboard fx ?kb ?d0) AND CLASS_KEYBOARD = 0" if "fx_key fx = None"
    using that by (simp add: classify_keyboard_def c0)
  have "keyBitmask (fst (candidate fx nm s))
          = (if classes (classify_keyboard fx ?kb ?d0) AND CLASS_KEYBOARD \<noteq> 0 then Some ?kb else None)"
    using n by (auto simp: candidate_def Let_def cache_key_bitmask_def new_device_t_def)
  with k show ?thesis by simp
qed

text \<open>
  C3.  Take an open that reaches the classification (none of the early returns of lines
  596-691), and say the device has a low key when some bit below \<^verbatim>\<open>BTN_MISC\<close> is set in
  the \<^verbatim>\<open>EV_KEY\<close> bitmask it probed (all zero when the ioctl fails).  A device with a low
  key is kept: \<^verbatim>\<open>open_device\<close> returns 0, unless the copy of the bitmask cannot be
  allocated.  Whenever \<^verbatim>\<open>open_device\<close> returns 0, the record now in the picked slot of the
  identity table, at the head of the opening list and at the end of the poll set, beside
  the probed descriptor, carries \<^verbatim>\<open>CLASS_KEYBOARD\<close> exactly when the device has a low
  key, and has the bitmask cached exactly then.  A device without a low key, whatever key
  bits it has at or above \<^verbatim>\<open>BTN_MISC\<close>, that passes none of the tests of the other classes
  is dropped: \<^verbatim>\<open>open_device\<close> returns -1, the descriptor is closed, the record is deleted,
  and the poll set, the opening list and the records of the identity table are as before
  (the table may have grown by an empty entry).
\<close>

theorem keyboard_below_btn_misc:
  assumes "reaches_probe fx s"
  shows "let key_bitmask = ioctl_bits ((KEY_MAX + 7) div 8) (fx_key fx);
             below = (\<exists>b<BTN_MISC. test_bit b key_bitmask);
             rc = fst (open_device fx deviceName s);
             s' = snd (open_device fx deviceName s)
         in (below \<and> \<not> fx_oom_keybitmask fx \<longrightarrow> rc = 0)
          \<and> (rc = 0 \<longrightarrow>
               (\<exists>dev. device (mDevicesById s' ! open_slot s) = Some dev
                  \<and> mOpeningDevices s' = dev # mOpeningDevices s
                  \<and> mDevices s' = mDevices s @ [Some dev]
                  \<and> mFDs s' = mFDs s @ [fx_fd fx]
                  \<and> path dev = deviceName
                  \<and> (classes dev AND CLASS_KEYBOARD \<noteq> 0) = below
                  \<and> keyBitmask dev = (if below then Some key_bitmask else None)))
          \<and> (\<not> below \<and> \<not> pointer_probe fx key_bitmask \<and> \<not> touch_probe fx key_bitmask
                \<and> \<not> headset_probe fx s \<longrightarrow>
               rc = -1
               \<and> fx_fd fx \<notin> set (os_open s')
               \<and> allocated s \<in> set (freed s')
               \<and> mDevices s' = mDevices s \<and> mFDs s' = mFDs s
               \<and> mOpeningDevices s' = mOpeningDevices s
               \<and> map device (mDevicesById s')
                   = map device (mDevicesById s)
                     @ (if mNumDevicesById s \<le> open_slot s then [None] else []))"
proof -
  let ?kb = "ioctl_bits ((KEY_MAX + 7) div 8) (fx_key fx)"
  let ?below = "\<exists>b<BTN_MISC. test_bit b ?kb"
  let ?dev = "fst (candidate fx deviceName s)"
  let ?r = "open_device fx deviceName s"
  note o = open_device_reach[OF assms, of deviceName]
  have kc: "(classes ?dev AND CLASS_KEYBOARD \<noteq> 0) = ?below" by (rule candidate_keyboard)
  have a: "fst ?r = 0" if "?below \<and> \<not> fx_oom_keybitmask fx"
  proof -
    from that kc have "classes ?dev AND CLASS_KEYBOARD \<noteq> 0" by simp
    then have "classes ?dev \<noteq> 0" by auto
    with that show ?thesis by (simp add: o)
  qed
  have len: "open_slot s < length (mDevicesById (advance_seq (open_slot s) (grow_table (open_slot s) s)))"
    by (rule advanced_table(2))
  have b: "\<exists>dev. device (mDevicesById (snd ?r) ! open_slot s) = Some dev
                  \<and> mOpeningDevices (snd ?r) = dev # mOpeningDevices s
                  \<and> mDevices (snd ?r) = mDevices s @ [Some dev]
                  \<and> mFDs (snd ?r) = mFDs s @ [fx_fd fx]
                  \<and> path dev = deviceName
                  \<and> (classes dev AND CLASS_KEYBOARD \<noteq> 0) = ?below
                  \<and> keyBitmask dev = (if ?below then Some ?kb else None)"
    if "fst ?r = 0"
  proof -
    from that have "snd ?r = register_device (open_slot s) (fx_fd fx) ?dev (snd (candidate fx deviceName s))"
      using open_device_success[of fx deviceName s "snd ?r"] by (simp add: prod_eq_iff)
    then have "device (mDevicesById (snd ?r) ! open_slot s) = Some ?dev
                  \<and> mOpeningDevices (snd ?r) = ?dev # mOpeningDevices s
                  \<and> mDevices (snd ?r) = mDevices s @ [Some ?dev]
                  \<and> mFDs (snd ?r) = mFDs s @ [fx_fd fx]"
      using len by (simp add: register_device_def)
    with kc candidate_keyBitmask[of fx deviceName s] show ?thesis by simp
  qed
  have c: "fst ?r = -1
               \<and> fx_fd fx \<notin> set (os_open (snd ?r))
               \<and> allocated s \<in> set (freed (snd ?r))
               \<and> mDevices (snd ?r) = mDevices s \<and> mFDs (snd ?r) = mFDs s
               \<and> mOpeningDevices (snd ?r) = mOpeningDevices s
               \<and> map device (mDevicesById (snd ?r))
                   = map device (mDevicesById s)
                     @ (if mNumDevicesById s \<le> open_slot s then [None] else [])"
    if "\<not> ?below \<and> \<not> pointer_probe fx ?kb \<and> \<not> touch_probe fx ?kb \<and> \<not> headset_probe fx s"
  proof -
    from that have z: "classes ?dev = 0" by (intro candidate_unclassified) simp_all
    then show ?thesis by (simp add: o map_device_advance)
  qed
  show ?thesis unfolding Let_def using a b c by blast
qed

theorem keyboard_below_btn_misc_witness:
  "reaches_probe (fx_keypad 10) started_hub
   \<and> 16 < BTN_MISC
   \<and> test_bit 16 (ioctl_bits ((KEY_MAX + 7) div 8) (fx_key (fx_keypad 10)))
   \<and> fst (open_device (fx_keypad 10) ''/dev/input/event0'' started_hub) = 0
   \<and> map_option path (device (mDevicesById
         (snd (open_device (fx_keypad 10) ''/dev/input/event0'' started_hub)) ! 0))
       = Some ''/dev/input/event0''
   \<and> map_option (\<lambda>d. classes d AND CLASS_KEYBOARD \<noteq> 0) (device (mDevicesById
         (snd (open_device (fx_keypad 10) ''/dev/input/event0'' started_hub)) ! 0))
       = Some True
   \<and> map_option keyBitmask (device (mDevicesById
         (snd (open_device (fx_keypad 10) ''/dev/input/event0'' started_hub)) ! 0))
       = Some (Some (ioctl_bits ((KEY_MAX + 7) div 8) (fx_key (fx_keypad 10))))
   \<and> map (map_option path)
         (mDevices (snd (open_device (fx_keypad 10) ''/dev/input/event0'' started_hub)))
       = [None, Some ''/dev/input/event0'']
   \<and> map path (mOpeningDevices (snd (open_device (fx_keypad 10) ''/dev/input/event0'' started_hub)))
       = [''/dev/input/event0'']
   \<and> mFDs (snd (open_device (fx_keypad 10) ''/dev/input/event0'' started_hub)) = [3, 10]
   \<and> reaches_probe (fx_controller 10) started_hub
   \<and> test_bit 288 (ioctl_bits ((KEY_MAX + 7) div 8) (fx_key (fx_controller 10)))
   \<and> \<not> keys_below_misc (ioctl_bits ((KEY_MAX + 7) div 8) (fx_key (fx_controller 10)))
   \<and> fst (open_device (fx_controller 10) ''/dev/input/event0'' started_hub) = -1
   \<and> 10 \<notin> set (os_open (snd (open_device (fx_controller 10) ''/dev/input/event0'' started_hub)))
   \<and> 0 \<in> set (freed (snd (open_device (fx_controller 10) ''/dev/input/event0'' started_hub)))
   \<and> mDevices (snd (open_device (fx_controller 10) ''/dev/input/event0'' started_hub)) = [None]
   \<and> mFDs (snd (open_device (fx_controller 10) ''/dev/input/event0'' started_hub)) = [3]
   \<and> mOpeningDevices (snd (open_device (fx_controller 10) ''/dev/input/event0'' started_hub)) = []"
proof -
  let ?p = "''/dev/input/event0''"
  let ?kp = "fx_keypad 10"
  let ?kkb = "ioctl_bits ((KEY_MAX + 7) div 8) (fx_key ?kp)"
  let ?k' = "snd (open_device ?kp ?p started_hub)"
  let ?ct = "fx_controller 10"
  let ?ckb = "ioctl_bits ((KEY_MAX + 7) div 8) (fx_key ?ct)"
  let ?c' = "snd (open_device ?ct ?p started_hub)"
  have hub: "mDevices started_hub = [None]" "mFDs started_hub = [3]"
    "mOpeningDevices started_hub = []" "open_slot started_hub = 0" "allocated started_hub = 0"
    by code_simp+
  have rk: "reaches_probe ?kp started_hub" by code_simp
  have lt: "16 < BTN_MISC" by code_simp
  have tk: "test_bit 16 ?kkb" by code_simp
  have fk: "fx_fd ?kp = 10" "\<not> fx_oom_keybitmask ?kp" by code_simp+
  from lt tk have below: "\<exists>b<BTN_MISC. test_bit b ?kkb" by blast
  note kept = keyboard_below_btn_misc[OF rk, of ?p, unfolded Let_def]
  from kept below fk(2) have rc: "fst (open_device ?kp ?p started_hub) = 0" by blast
  with kept obtain dev where dev:
    "device (mDevicesById ?k' ! open_slot started_hub) = Some dev"
    "mOpeningDevices ?k' = dev # mOpeningDevices started_hub"
    "mDevices ?k' = mDevices started_hub @ [Some dev]"
    "mFDs ?k' = mFDs started_hub @ [fx_fd ?kp]"
    "path dev = ?p"
    "(classes dev AND CLASS_KEYBOARD \<noteq> 0) = (\<exists>b<BTN_MISC. test_bit b ?kkb)"
    "keyBitmask dev = (if \<exists>b<BTN_MISC. test_bit b ?kkb then Some ?kkb else None)"
    by blast
  have k: "map_option path (device (mDevicesById ?k' ! 0)) = Some ?p"
    "map_option (\<lambda>d. classes d AND CLASS_KEYBOARD \<noteq> 0) (device (mDevicesById ?k' ! 0)) = Some True"
    "map_option keyBitmask (device (mDevicesById ?k' ! 0)) = Some (Some ?kkb)"
    "map (map_option path) (mDevices ?k') = [None, Some ?p]"
    "map path (mOpeningDevices ?k') = [?p]"
    "mFDs ?k' = [3, 10]"
    using dev below by (simp_all add: hub fk)
  have rc: "reaches_probe ?ct started_hub" by code_simp
  have tc: "test_bit 288 ?ckb" by code_simp
  have nk: "\<not> keys_below_misc ?ckb" by code_simp
  then have nb: "\<not> (\<exists>b<BTN_MISC. test_bit b ?ckb)" by (simp add: keys_below_misc_iff)
  have np: "\<not> pointer_probe ?ct ?ckb" "\<not> touch_probe ?ct ?ckb" "\<not> headset_probe ?ct started_hub"
    by code_simp+
  have fc: "fx_fd ?ct = 10" by code_simp
  note dropped = keyboard_below_btn_misc[OF rc, of ?p, unfolded Let_def]
  from dropped nb np have c:
    "fst (open_device ?ct ?p started_hub) = -1"
    "fx_fd ?ct \<notin> set (os_open ?c')"
    "allocated started_hub \<in> set (freed ?c')"
    "mDevices ?c' = mDevices started_hub" "mFDs ?c' = mFDs started_hub"
    "mOpeningDevices ?c' = mOpeningDevices started_hub"
    by blast+
  show ?thesis
    using rk lt tk \<open>fst (open_device ?kp ?p started_hub) = 0\<close> k rc tc nk c
    by (simp add: hub fc)
qed

end
